theory Spec2Isabelle
  imports Main "HOL-Library.Sublist"
begin

section \<open>Yarn-to-CSV parser: a shallow embedding of \<^verbatim>\<open>YarnParser2.0.py\<close>\<close>

text \<open>
  The program reads a Yarn Spinner script line by line and writes one CSV row per dialogue
  line or choice. Everything of substance is in \<^verbatim>\<open>parse_yarn_to_csv\<close>: a loop over
  the lines of the input with three local variables (the current node title, the body flag
  and the counter for generated identifiers).

  Python strings are modelled as \<^typ>\<open>string\<close>; a \<^typ>\<open>char\<close> stands for a code point
  below 256, so the model covers Latin-1 text. Python's unbounded \<^verbatim>\<open>int\<close> counter only
  counts up from 0 and is a \<^typ>\<open>nat\<close>.
\<close>

subsection \<open>String primitives of Python used by the parser\<close>

text \<open>
  \<^verbatim>\<open>str.strip()\<close>, \<^verbatim>\<open>str.isspace()\<close> and the regular expression classes
  \<^verbatim>\<open>\s\<close>, \<^verbatim>\<open>\S\<close> of a \<^verbatim>\<open>str\<close> pattern share one notion of whitespace. Below 256
  these are the code points 9 to 13, 28 to 31, 32, 133 and 160.
\<close>

definition isspace :: "char \<Rightarrow> bool" where
  "isspace c = (of_char c \<in> set [9, 10, 11, 12, 13, 28, 29, 30, 31, 32, 133, 160 :: nat])"

definition strip :: "string \<Rightarrow> string" where
  "strip s = rev (dropWhile isspace (rev (dropWhile isspace s)))"

definition startswith :: "string \<Rightarrow> string \<Rightarrow> bool" where
  "startswith s p = (take (length p) s = p)"


text \<open>
  \<^verbatim>\<open>str.lower()\<close> on Latin-1: the ASCII capitals and the accented capitals 192 to 222
  (without the multiplication sign 215) move up by 32; every other code point stays.
\<close>

definition lower_char :: "char \<Rightarrow> char" where
  "lower_char c =
     (let n = of_char c :: nat
      in if (65 \<le> n \<and> n \<le> 90) \<or> (192 \<le> n \<and> n \<le> 222 \<and> n \<noteq> 215)
         then char_of (n + 32) else c)"

definition lower :: "string \<Rightarrow> string" where
  "lower s = map lower_char s"


text \<open>
  \<^verbatim>\<open>str(n)\<close> for a counter value, as the f-string \<^verbatim>\<open>f"auto_id_{line_counter}"\<close>
  formats it: decimal, no leading zero.
\<close>

definition digit_char :: "nat \<Rightarrow> char" where
  "digit_char d = ''0123456789'' ! d"

function str_nat :: "nat \<Rightarrow> string" where
  "str_nat n = (if n < 10 then [digit_char n] else str_nat (n div 10) @ [digit_char (n mod 10)])"
  by pat_completeness auto
termination
  by (relation "measure id") auto

declare str_nat.simps [simp del]

subsection \<open>The regular expressions\<close>

text \<open>
  \<^verbatim>\<open>re.findall(r'#(\S+)', s)\<close>: scanning from the left, a \<^verbatim>\<open>#\<close> followed by at least
  one non-whitespace character starts a match; the match takes the whole run of
  non-whitespace characters (which may hold further \<^verbatim>\<open>#\<close>), the group is the run, and
  the scan goes on behind the match.
\<close>

function findall_tags :: "string \<Rightarrow> string list" where
  "findall_tags [] = []"
| "findall_tags (c # cs) =
     (if c = CHR ''#'' \<and> takeWhile (\<lambda>x. \<not> isspace x) cs \<noteq> []
      then takeWhile (\<lambda>x. \<not> isspace x) cs # findall_tags (dropWhile (\<lambda>x. \<not> isspace x) cs)
      else findall_tags cs)"
  by pat_completeness auto
termination
  by (relation "measure length") (auto simp: less_Suc_eq_le length_dropWhile_le)

text \<open>\<^verbatim>\<open>re.sub(r'#\S+', '', s)\<close>: the same matches, each replaced by nothing.\<close>

function sub_tags :: "string \<Rightarrow> string" where
  "sub_tags [] = []"
| "sub_tags (c # cs) =
     (if c = CHR ''#'' \<and> takeWhile (\<lambda>x. \<not> isspace x) cs \<noteq> []
      then sub_tags (dropWhile (\<lambda>x. \<not> isspace x) cs)
      else c # sub_tags cs)"
  by pat_completeness auto
termination
  by (relation "measure length") (auto simp: less_Suc_eq_le length_dropWhile_le)

text \<open>
  \<^verbatim>\<open>re.sub(r'<<.*>>', '', s)\<close>. The dot matches every character but the line feed and
  the star is greedy: a match starts at a \<^verbatim>\<open><<\<close> and ends with the last \<^verbatim>\<open>>>\<close> that
  stands behind it before the next line feed. \<open>last_close seg\<close> is the position of that
  last \<^verbatim>\<open>>>\<close> in the segment \<open>seg\<close> behind the opening \<^verbatim>\<open><<\<close>.
\<close>

fun last_close :: "string \<Rightarrow> nat option" where
  "last_close [] = None"
| "last_close (c # cs) =
     (case last_close cs of
        Some k \<Rightarrow> Some (Suc k)
      | None \<Rightarrow> if c = CHR ''>'' \<and> startswith cs ''>'' then Some 0 else None)"

function sub_cond :: "string \<Rightarrow> string" where
  "sub_cond [] = []"
| "sub_cond (c # cs) =
     (if c = CHR ''<'' \<and> startswith cs ''<''
      then (case last_close (takeWhile (\<lambda>x. x \<noteq> CHR 0x0A) (tl cs)) of
              Some k \<Rightarrow> sub_cond (drop (k + 2) (tl cs))
            | None \<Rightarrow> c # sub_cond cs)
      else c # sub_cond cs)"
  by pat_completeness auto
termination
  by (relation "measure length") auto

text \<open>
  \<^verbatim>\<open>re.match(r'([^:]+):\s*(.*)', s)\<close>, as the pair of its two groups. The first group
  is the text before the first colon and must not be empty; behind the colon all whitespace
  is skipped and the second group runs to the next line feed.
\<close>

definition match_speaker :: "string \<Rightarrow> (string \<times> string) option" where
  "match_speaker s =
     (let g1 = takeWhile (\<lambda>c. c \<noteq> CHR '':'') s;
          rest = dropWhile (\<lambda>c. c \<noteq> CHR '':'') s
      in if g1 = [] \<or> rest = [] then None
         else Some (g1, takeWhile (\<lambda>c. c \<noteq> CHR 0x0A) (dropWhile isspace (tl rest))))"

subsection \<open>The parse state and the rows\<close>

record parse_state =
  current_node_title :: string
  in_body :: bool
  line_counter :: nat

text \<open>
  One call of \<^verbatim>\<open>csv_writer.writerow\<close> in the loop. The tags are kept as the list
  \<^verbatim>\<open>other_tags\<close>; \<open>cells\<close> below joins them as the source does.
\<close>

record row =
  line_id :: string
  node_title :: string
  character_name :: string
  line_text :: string
  other_tags :: "string list"

definition initial_state :: parse_state where
  "initial_state = \<lparr>current_node_title = ''NO_TITLE'', in_body = False, line_counter = 0\<rparr>"

subsection \<open>One line of a node body (source lines 52 to 93)\<close>

definition is_line_tag :: "string \<Rightarrow> bool" where
  "is_line_tag tag = startswith (lower tag) ''line:''"

text \<open>
  The loop \<^verbatim>\<open>for tag in tags\<close> with its two variables \<^verbatim>\<open>line_id\<close> and
  \<^verbatim>\<open>other_tags\<close>.
\<close>

fun classify_tags :: "string list \<Rightarrow> string \<Rightarrow> string list \<Rightarrow> string \<times> string list" where
  "classify_tags [] lid other = (lid, other)"
| "classify_tags (tag # tags) lid other =
     (if is_line_tag tag then classify_tags tags tag other
      else classify_tags tags lid (other @ [tag]))"

definition body_line :: "parse_state \<Rightarrow> string \<Rightarrow> parse_state \<times> row option" where
  "body_line st line =
     (if startswith line ''//'' \<or> startswith line ''<<'' then (st, None)
      else
        let tags = findall_tags line;
            t0 = strip (sub_tags line);
            (tag_id, other) = classify_tags tags [] [];
            lid = (if tag_id = [] then ''auto_id_'' @ str_nat (line_counter st) else tag_id);
            st' = (if tag_id = [] then st\<lparr>line_counter := line_counter st + 1\<rparr> else st)
        in if t0 = [] then (st', None)
           else
             let is_choice = startswith t0 ''->'';
                 t1 = (if is_choice
                       then strip (sub_cond (strip (dropWhile (\<lambda>c. c \<in> set ''->'') t0)))
                       else t0);
                 m = match_speaker t1;
                 (name, t2) = (if m \<noteq> None \<and> \<not> is_choice
                               then (strip (fst (the m)), strip (snd (the m)))
                               else ([], t1))
             in (st', Some \<lparr>line_id = lid, node_title = current_node_title st,
                            character_name = name, line_text = t2, other_tags = other\<rparr>))"

subsection \<open>One line of the input (source lines 35 to 51)\<close>

definition process_line :: "parse_state \<Rightarrow> string \<Rightarrow> parse_state \<times> row option" where
  "process_line st raw =
     (let line = strip raw
      in if line = [] then (st, None)
         else if startswith line ''title:''
         then (st\<lparr>current_node_title := strip (drop 1 (dropWhile (\<lambda>c. c \<noteq> CHR '':'') line)),
                  in_body := False\<rparr>, None)
         else if strip line = ''---'' then (st\<lparr>in_body := True\<rparr>, None)
         else if strip line = ''===''
         then (st\<lparr>in_body := False, current_node_title := ''NO_TITLE''\<rparr>, None)
         else if in_body st then body_line st line
         else (st, None))"

subsection \<open>The loop over the lines\<close>

fun parse_lines :: "parse_state \<Rightarrow> string list \<Rightarrow> parse_state \<times> row list" where
  "parse_lines st [] = (st, [])"
| "parse_lines st (raw # rest) =
     (case process_line st raw of
        (st', out) \<Rightarrow>
          (case parse_lines st' rest of
             (st'', rows) \<Rightarrow> (st'', (case out of None \<Rightarrow> rows | Some r \<Rightarrow> r # rows))))"

definition extract_rows :: "string list \<Rightarrow> row list" where
  "extract_rows lines = snd (parse_lines initial_state lines)"

definition final_state :: "string list \<Rightarrow> parse_state" where
  "final_state lines = fst (parse_lines initial_state lines)"

subsection \<open>Files, output and exit codes\<close>

text \<open>
  What the program does to the outside is a trace of events: a line printed, the
  destination opened for writing (which creates or truncates it), a row handed to
  \<^verbatim>\<open>csv_writer.writerow\<close>, and the traceback Python prints when an exception is not
  caught. The serialisation of a row (quoting, line ends) is the \<^verbatim>\<open>csv\<close> module's and
  is not modelled.

  Opening and reading a file can fail in more than one way, and the program treats the ways
  differently, so the exceptions are kept apart: besides \<^verbatim>\<open>FileNotFoundError\<close>,
  \<^verbatim>\<open>open\<close> raises \<^verbatim>\<open>NotADirectoryError\<close> for a path below a regular file,
  \<^verbatim>\<open>IsADirectoryError\<close> for a directory, \<^verbatim>\<open>PermissionError\<close>, another
  \<^verbatim>\<open>OSError\<close> (a name that is too long) or \<^verbatim>\<open>ValueError\<close> (a null character in
  the path), and \<^verbatim>\<open>readlines\<close> raises \<^verbatim>\<open>UnicodeDecodeError\<close> on bytes that are
  not UTF-8.
\<close>

datatype exn =
  FileNotFoundError
| NotADirectoryError
| IsADirectoryError
| PermissionError
| OSError
| ValueError
| UnicodeDecodeError













subsection \<open>The title in force, in the specification's words\<close>

text \<open>
  The specification describes the node title of a row without the loop: it is the title of
  the most recent \<^verbatim>\<open>title:\<close> header among the lines read so far, unless a line
  \<^verbatim>\<open>===\<close> came later, and \<^verbatim>\<open>NO_TITLE\<close> when there is neither. \<open>newest_title\<close> takes
  the lines read so far with the newest first.
\<close>

fun newest_title :: "string list \<Rightarrow> string" where
  "newest_title [] = ''NO_TITLE''"
| "newest_title (raw # older) =
     (if startswith (strip raw) ''title:''
      then strip (drop 1 (dropWhile (\<lambda>c. c \<noteq> CHR '':'') (strip raw)))
      else if strip raw = ''==='' then ''NO_TITLE''
      else newest_title older)"

definition title_in_force :: "string list \<Rightarrow> string" where
  "title_in_force seen = newest_title (rev seen)"

subsection \<open>Notions used by the properties\<close>

text \<open>The rows one line adds to the output: none or one.\<close>

definition emitted :: "row option \<Rightarrow> row list" where
  "emitted out = (case out of None \<Rightarrow> [] | Some r \<Rightarrow> [r])"

text \<open>
  A string holds an inline conditional when \<^verbatim>\<open><<\<close> is followed, with no line feed in
  between, by \<^verbatim>\<open>>>\<close>: the strings the pattern \<^verbatim>\<open><<.*>>\<close> finds a match in.
\<close>

definition has_cond :: "string \<Rightarrow> bool" where
  "has_cond s = (\<exists>a b c. s = a @ ''<<'' @ b @ ''>>'' @ c \<and> CHR 0x0A \<notin> set b)"

section \<open>Properties\<close>

subsection \<open>Whitespace stripping\<close>

text \<open>
  \<open>strip\<close> cuts whitespace from both ends and nothing else: the input is the result
  between two runs of whitespace, and a result that is not empty starts and ends with a
  character that is not whitespace.
\<close>

lemma rev_dropWhile_decomp: "rev (dropWhile P (rev xs)) @ rev (takeWhile P (rev xs)) = xs"
proof -
  have "rev (takeWhile P (rev xs) @ dropWhile P (rev xs)) = xs"
    by (simp only: takeWhile_dropWhile_id rev_rev_ident)
  then show ?thesis by (simp only: rev_append)
qed

lemma strip_decomp:
  "\<exists>u v. s = u @ strip s @ v \<and> (\<forall>c\<in>set u. isspace c) \<and> (\<forall>c\<in>set v. isspace c)"
proof -
  let ?xs = "dropWhile isspace s"
  have 1: "s = takeWhile isspace s @ ?xs" by simp
  have 2: "?xs = strip s @ rev (takeWhile isspace (rev ?xs))"
    unfolding strip_def by (rule rev_dropWhile_decomp [symmetric])
  have 3: "\<forall>c\<in>set (takeWhile isspace s). isspace c" by (auto dest: set_takeWhileD)
  have 4: "\<forall>c\<in>set (rev (takeWhile isspace (rev ?xs))). isspace c" by (auto dest: set_takeWhileD)
  from 1 2 have "s = takeWhile isspace s @ strip s @ rev (takeWhile isspace (rev ?xs))" by simp
  with 3 4 show ?thesis by blast
qed

lemma strip_ends:
  assumes ne: "strip s \<noteq> []"
  shows "\<not> isspace (hd (strip s)) \<and> \<not> isspace (last (strip s))"
proof -
  let ?xs = "dropWhile isspace s"
  let ?ys = "dropWhile isspace (rev ?xs)"
  from ne have ys: "?ys \<noteq> []" by (simp add: strip_def)
  then have l: "\<not> isspace (hd ?ys)" by (rule hd_dropWhile)
  have "last (strip s) = hd ?ys" using ys by (simp add: strip_def last_rev)
  with l have A: "\<not> isspace (last (strip s))" by simp
  have xs: "?xs \<noteq> []" using ys by (cases ?xs) simp_all
  then have h: "\<not> isspace (hd ?xs)" by (rule hd_dropWhile)
  have "?xs = strip s @ rev (takeWhile isspace (rev ?xs))"
    unfolding strip_def by (rule rev_dropWhile_decomp [symmetric])
  then have "hd ?xs = hd (strip s)" using ne by (metis hd_append2)
  with h A show ?thesis by simp
qed

lemma strip_fixed:
  assumes "s = [] \<or> (\<not> isspace (hd s) \<and> \<not> isspace (last s))"
  shows "strip s = s"
proof (cases s)
  case Nil then show ?thesis by (simp add: strip_def)
next
  case (Cons a as)
  with assms have h: "\<not> isspace (hd s)" and l: "\<not> isspace (last s)" by auto
  from Cons h have 1: "dropWhile isspace s = s" by simp
  from Cons have ne: "rev s \<noteq> []" by simp
  have "hd (rev s) = last s" using Cons by (simp add: hd_rev)
  with l have "\<not> isspace (hd (rev s))" by simp
  with ne have "dropWhile isspace (rev s) = rev s" by (cases "rev s") simp_all
  with 1 show ?thesis by (simp add: strip_def)
qed

lemma strip_idem: "strip (strip s) = strip s"
  using strip_ends [of s] strip_fixed [of "strip s"] by blast

lemma strip_eq_Nil_iff: "strip s = [] \<longleftrightarrow> (\<forall>c\<in>set s. isspace c)"
proof
  assume "strip s = []"
  with strip_decomp [of s] show "\<forall>c\<in>set s. isspace c" by auto
next
  assume "\<forall>c\<in>set s. isspace c"
  then have "dropWhile isspace s = []" by simp
  then show "strip s = []" by (simp only: strip_def rev.simps dropWhile.simps)
qed

lemma strip_end_marker: "strip ''==='' = ''===''"
  by (simp add: strip_def isspace_def)

lemma strip_Cons_nonspace:
  assumes "\<not> isspace c"
  shows "\<exists>w. strip (c # x) = c # w"
proof -
  from strip_decomp [of "c # x"] obtain u v where
    d: "c # x = u @ strip (c # x) @ v" and u: "\<forall>a\<in>set u. isspace a" by blast
  have ne: "strip (c # x) \<noteq> []" using assms by (auto simp: strip_eq_Nil_iff)
  have "u = []"
  proof (cases u)
    case Nil then show ?thesis .
  next
    case (Cons a u')
    with d have "a = c" by simp
    with Cons u assms show ?thesis by simp
  qed
  with d ne have "hd (strip (c # x)) = c" by (metis append_Nil hd_append2 list.sel(1))
  with ne show ?thesis by (cases "strip (c # x)") auto
qed

lemma dropWhile_keeps_segment:
  assumes "c \<noteq> []" "\<not> P (hd c)"
  shows "\<exists>u1. dropWhile P (u @ c @ v) = u1 @ c @ v"
proof (cases "\<forall>x\<in>set u. P x")
  case True
  from assms obtain h t where "c = h # t" "\<not> P h" by (cases c) auto
  with True have "dropWhile P (u @ c @ v) = [] @ c @ v" by simp
  then show ?thesis by blast
next
  case False
  then obtain x where "x \<in> set u" "\<not> P x" by blast
  then have "dropWhile P (u @ c @ v) = dropWhile P u @ c @ v" by (rule dropWhile_append1)
  then show ?thesis by blast
qed

lemma strip_keeps_segment:
  assumes "c \<noteq> []" "\<not> isspace (hd c)" "\<not> isspace (last c)"
  shows "\<exists>u' v'. strip (u @ c @ v) = u' @ c @ v'"
proof -
  from dropWhile_keeps_segment [of c isspace u v, OF assms(1,2)] obtain u1 where
    1: "dropWhile isspace (u @ c @ v) = u1 @ c @ v" by blast
  have "rev c \<noteq> []" "\<not> isspace (hd (rev c))" using assms by (simp_all add: hd_rev)
  from dropWhile_keeps_segment [of "rev c" isspace "rev v" "rev u1", OF this] obtain v1 where
    2: "dropWhile isspace (rev v @ rev c @ rev u1) = v1 @ rev c @ rev u1" by blast
  have "strip (u @ c @ v) = rev (dropWhile isspace (rev v @ rev c @ rev u1))"
    by (simp add: strip_def 1)
  also have "\<dots> = u1 @ c @ rev v1" by (simp add: 2)
  finally show ?thesis by blast
qed

lemma strip_appended_tag:
  assumes "T \<noteq> []" "\<forall>c\<in>set T. \<not> isspace c"
  shows "strip (b @ '' #'' @ T) =
           (if \<forall>c\<in>set b. isspace c then CHR ''#'' # T else dropWhile isspace b @ '' #'' @ T)"
proof -
  let ?z = "if \<forall>c\<in>set b. isspace c then CHR ''#'' # T else dropWhile isspace b @ '' #'' @ T"
  have sp: "isspace CHR '' ''" and hs: "\<not> isspace CHR ''#''" by (simp_all add: isspace_def)
  have d: "dropWhile isspace (b @ '' #'' @ T) = ?z"
    using sp hs by (auto simp: dropWhile_append)
  have ne: "?z \<noteq> []" by simp
  have "last ?z = last T" using assms(1) by simp
  with assms have l: "\<not> isspace (last ?z)" by simp
  have "hd (rev ?z) = last ?z" using ne by (simp only: hd_rev)
  with l have "\<not> isspace (hd (rev ?z))" by simp
  moreover from ne have "rev ?z \<noteq> []" by simp
  ultimately have "dropWhile isspace (rev ?z) = rev ?z" by (cases "rev ?z") simp_all
  then have "rev (dropWhile isspace (rev ?z)) = ?z" by simp
  then show ?thesis unfolding strip_def d .
qed

subsection \<open>Decimal numerals\<close>

text \<open>Different counter values are printed differently.\<close>

lemma digit_char_inj:
  assumes "a < 10" "b < 10" "digit_char a = digit_char b"
  shows "a = b"
proof -
  have "distinct ''0123456789''" by simp
  moreover have "a < length ''0123456789''" "b < length ''0123456789''" using assms by simp_all
  ultimately show ?thesis using assms(3) unfolding digit_char_def
    by (simp only: nth_eq_iff_index_eq)
qed

lemma str_nat_nonempty: "str_nat n \<noteq> []"
  by (subst str_nat.simps) simp

lemma str_nat_inj: "str_nat m = str_nat n \<Longrightarrow> m = n"
proof (induction m arbitrary: n rule: str_nat.induct)
  case (1 m)
  show ?case
  proof (cases "m < 10")
    case m: True
    show ?thesis
    proof (cases "n < 10")
      case True
      with m "1.prems" show ?thesis
        by (simp add: str_nat.simps [of m] str_nat.simps [of n] digit_char_inj)
    next
      case False
      with m "1.prems" str_nat_nonempty [of "n div 10"] show ?thesis
        by (simp add: str_nat.simps [of m] str_nat.simps [of n])
    qed
  next
    case m: False
    show ?thesis
    proof (cases "n < 10")
      case True
      with m "1.prems" str_nat_nonempty [of "m div 10"] show ?thesis
        by (simp add: str_nat.simps [of m] str_nat.simps [of n])
    next
      case False
      with m "1.prems" have e: "str_nat (m div 10) = str_nat (n div 10)"
        and d: "digit_char (m mod 10) = digit_char (n mod 10)"
        by (simp_all add: str_nat.simps [of m] str_nat.simps [of n])
      from "1.IH" [OF m e] have q: "m div 10 = n div 10" .
      from d have r: "m mod 10 = n mod 10" by (simp add: digit_char_inj)
      from q r show ?thesis by (metis div_mult_mod_eq)
    qed
  qed
qed

lemma auto_id_inj: "''auto_id_'' @ str_nat m = ''auto_id_'' @ str_nat n \<Longrightarrow> m = n"
  by (simp add: str_nat_inj)

subsection \<open>Tags\<close>

lemma is_line_tag_nonempty: "is_line_tag t \<Longrightarrow> t \<noteq> []"
  by (auto simp: is_line_tag_def startswith_def lower_def)

lemma not_line_tag_auto: "\<not> is_line_tag (''auto_id_'' @ s)"
  by (simp add: is_line_tag_def startswith_def lower_def lower_char_def)

lemma is_line_tag_prefix: "is_line_tag (''line:'' @ x)"
  by (simp add: is_line_tag_def startswith_def lower_def lower_char_def)

text \<open>
  The loop over the tags, in closed form: the identifier is the last tag that starts with
  \<^verbatim>\<open>line:\<close> (each such tag overwrites the one before), the other tags keep their order.
\<close>

lemma classify_tags_eq:
  "classify_tags tags lid other =
     (if filter is_line_tag tags = [] then lid else last (filter is_line_tag tags),
      other @ filter (\<lambda>t. \<not> is_line_tag t) tags)"
  by (induction tags arbitrary: lid other) auto

lemma last_filter_line_tag:
  assumes "filter is_line_tag tags \<noteq> []"
  shows "is_line_tag (last (filter is_line_tag tags)) \<and> last (filter is_line_tag tags) \<in> set tags"
proof -
  from assms have "last (filter is_line_tag tags) \<in> set (filter is_line_tag tags)"
    by (rule last_in_set)
  then show ?thesis by simp
qed

lemma tag_id_empty_iff:
  "fst (classify_tags tags [] []) = [] \<longleftrightarrow> filter is_line_tag tags = []"
  using last_filter_line_tag [of tags] is_line_tag_nonempty
  by (auto simp: classify_tags_eq)

text \<open>A space ends every tag, so the tags of a line are found piece by piece.\<close>

lemma findall_tags_space:
  "findall_tags (xs @ CHR '' '' # ys) = findall_tags xs @ findall_tags ys"
proof (induction xs rule: findall_tags.induct)
  case 1
  show ?case by simp
next
  case (2 c cs)
  have sp: "isspace CHR '' ''" by (simp add: isspace_def)
  show ?case
  proof (cases "c = CHR ''#'' \<and> takeWhile (\<lambda>x. \<not> isspace x) cs \<noteq> []")
    case True
    have t: "takeWhile (\<lambda>x. \<not> isspace x) (cs @ CHR '' '' # ys) = takeWhile (\<lambda>x. \<not> isspace x) cs"
      using sp by (simp add: takeWhile_tail)
    have d: "dropWhile (\<lambda>x. \<not> isspace x) (cs @ CHR '' '' # ys) =
             dropWhile (\<lambda>x. \<not> isspace x) cs @ CHR '' '' # ys"
      using sp by (simp add: dropWhile_append3)
    from True "2.IH"(1) [OF True] show ?thesis by (simp add: t d)
  next
    case False
    have t: "takeWhile (\<lambda>x. \<not> isspace x) (cs @ CHR '' '' # ys) = takeWhile (\<lambda>x. \<not> isspace x) cs"
      using sp by (simp add: takeWhile_tail)
    from False "2.IH"(2) [OF False] show ?thesis by (auto simp: t)
  qed
qed

lemma findall_tags_single:
  assumes "T \<noteq> []" "\<forall>c\<in>set T. \<not> isspace c"
  shows "findall_tags (CHR ''#'' # T) = [T]"
proof -
  from assms(2) have t: "takeWhile (\<lambda>x. \<not> isspace x) T = T"
    and d: "dropWhile (\<lambda>x. \<not> isspace x) T = []"
    by simp_all
  have "findall_tags (CHR ''#'' # T) =
        takeWhile (\<lambda>x. \<not> isspace x) T # findall_tags (dropWhile (\<lambda>x. \<not> isspace x) T)"
    using assms(1) by (simp only: findall_tags.simps t) simp
  then show ?thesis by (simp only: t d findall_tags.simps)
qed

lemma appended_tag_is_last:
  assumes "T \<noteq> []" "\<forall>c\<in>set T. \<not> isspace c"
  shows "\<exists>pre. findall_tags (strip (b @ '' #'' @ T)) = pre @ [T]"
proof (cases "\<forall>c\<in>set b. isspace c")
  case True
  with strip_appended_tag [OF assms, of b] findall_tags_single [OF assms]
  have "findall_tags (strip (b @ '' #'' @ T)) = [] @ [T]" by simp
  then show ?thesis by blast
next
  case False
  with strip_appended_tag [OF assms, of b]
  have "strip (b @ '' #'' @ T) = dropWhile isspace b @ CHR '' '' # (CHR ''#'' # T)" by simp
  with findall_tags_space [of "dropWhile isspace b" "CHR ''#'' # T"] findall_tags_single [OF assms]
  have "findall_tags (strip (b @ '' #'' @ T)) = findall_tags (dropWhile isspace b) @ [T]" by simp
  then show ?thesis by blast
qed

subsection \<open>The speaker pattern\<close>

lemma match_speaker_Some:
  assumes "match_speaker s = Some (g1, g2)"
  shows "g1 = takeWhile (\<lambda>c. c \<noteq> CHR '':'') s" "g1 \<noteq> []" "hd g1 = hd s"
    "g2 = takeWhile (\<lambda>c. c \<noteq> CHR 0x0A) (dropWhile isspace (tl (dropWhile (\<lambda>c. c \<noteq> CHR '':'') s)))"
proof -
  from assms show 1: "g1 = takeWhile (\<lambda>c. c \<noteq> CHR '':'') s" and 2: "g1 \<noteq> []"
    and "g2 = takeWhile (\<lambda>c. c \<noteq> CHR 0x0A) (dropWhile isspace (tl (dropWhile (\<lambda>c. c \<noteq> CHR '':'') s)))"
    by (auto simp: match_speaker_def Let_def split: if_splits)
  from 1 2 show "hd g1 = hd s" by (cases s) (auto split: if_splits)
qed

lemma match_speaker_None_iff:
  "match_speaker s = None \<longleftrightarrow> CHR '':'' \<notin> set s \<or> hd s = CHR '':''"
proof (cases s)
  case Nil
  then show ?thesis by (simp add: match_speaker_def)
next
  case (Cons a as)
  then show ?thesis by (auto simp: match_speaker_def Let_def)
qed

lemma match_speaker_one_line:
  assumes "match_speaker s = Some (g1, g2)" "CHR 0x0A \<notin> set s"
  shows "g2 = dropWhile isspace (tl (dropWhile (\<lambda>c. c \<noteq> CHR '':'') s))"
proof -
  let ?xs = "dropWhile isspace (tl (dropWhile (\<lambda>c. c \<noteq> CHR '':'') s))"
  have "\<forall>x\<in>set ?xs. x \<noteq> CHR 0x0A"
  proof
    fix x assume "x \<in> set ?xs"
    then have "x \<in> set (tl (dropWhile (\<lambda>c. c \<noteq> CHR '':'') s))" by (rule set_dropWhileD)
    then have "x \<in> set (dropWhile (\<lambda>c. c \<noteq> CHR '':'') s)"
      by (cases "dropWhile (\<lambda>c. c \<noteq> CHR '':'') s") simp_all
    then have "x \<in> set s" by (rule set_dropWhileD)
    with assms(2) show "x \<noteq> CHR 0x0A" by auto
  qed
  then have "takeWhile (\<lambda>c. c \<noteq> CHR 0x0A) ?xs = ?xs" by simp
  with match_speaker_Some(4) [OF assms(1)] show ?thesis by simp
qed

lemma speaker_nonempty:
  assumes "match_speaker (strip x) = Some (g1, g2)"
  shows "strip g1 \<noteq> []"
proof -
  from match_speaker_Some [OF assms] have g: "g1 \<noteq> []" "hd g1 = hd (strip x)" by simp_all
  then have "strip x \<noteq> []" using assms by (auto simp: match_speaker_def)
  then have "\<not> isspace (hd (strip x))" using strip_ends by blast
  with g have "\<not> isspace (hd g1)" by simp
  moreover from g(1) have "hd g1 \<in> set g1" by (rule hd_in_set)
  ultimately show ?thesis by (auto simp: strip_eq_Nil_iff)
qed

subsection \<open>Removal of inline conditionals\<close>

text \<open>
  \<open>last_close\<close> finds a closing \<^verbatim>\<open>>>\<close> exactly when there is one. Where the first line
  of a string has none, \<open>sub_cond\<close> leaves that line as it is. From both: the result of
  \<open>sub_cond\<close> holds no inline conditional any more.
\<close>

lemma last_close_None_iff: "last_close s = None \<longleftrightarrow> \<not> (\<exists>u v. s = u @ ''>>'' @ v)"
proof (induction s)
  case Nil
  then show ?case by simp
next
  case (Cons c cs)
  have "(\<exists>u v. c # cs = u @ ''>>'' @ v) \<longleftrightarrow>
        (c = CHR ''>'' \<and> startswith cs ''>'') \<or> (\<exists>u v. cs = u @ ''>>'' @ v)"
  proof
    assume "\<exists>u v. c # cs = u @ ''>>'' @ v"
    then obtain u v where e: "c # cs = u @ ''>>'' @ v" by blast
    show "(c = CHR ''>'' \<and> startswith cs ''>'') \<or> (\<exists>u v. cs = u @ ''>>'' @ v)"
    proof (cases u)
      case Nil
      with e show ?thesis by (simp add: startswith_def)
    next
      case (Cons a u')
      with e have "cs = u' @ ''>>'' @ v" by simp
      then show ?thesis by blast
    qed
  next
    assume "(c = CHR ''>'' \<and> startswith cs ''>'') \<or> (\<exists>u v. cs = u @ ''>>'' @ v)"
    then show "\<exists>u v. c # cs = u @ ''>>'' @ v"
    proof
      assume a: "c = CHR ''>'' \<and> startswith cs ''>''"
      then obtain v where "cs = CHR ''>'' # v" by (cases cs) (auto simp: startswith_def)
      with a have "c # cs = [] @ ''>>'' @ v" by simp
      then show ?thesis by blast
    next
      assume "\<exists>u v. cs = u @ ''>>'' @ v"
      then obtain u v where "cs = u @ ''>>'' @ v" by blast
      then have "c # cs = (c # u) @ ''>>'' @ v" by simp
      then show ?thesis by blast
    qed
  qed
  with Cons.IH show ?case by (auto split: option.splits)
qed

lemma last_close_Cons_None: "last_close (c # cs) = None \<Longrightarrow> last_close cs = None"
  by (simp split: option.splits)

lemma sub_cond_first_segment:
  "last_close (takeWhile (\<lambda>x. x \<noteq> CHR 0x0A) s) = None \<Longrightarrow>
     takeWhile (\<lambda>x. x \<noteq> CHR 0x0A) (sub_cond s) = takeWhile (\<lambda>x. x \<noteq> CHR 0x0A) s"
proof (induction s)
  case Nil
  then show ?case by simp
next
  case (Cons c cs)
  show ?case
  proof (cases "c = CHR 0x0A")
    case True
    then show ?thesis by simp
  next
    case False
    with Cons.prems have "last_close (c # takeWhile (\<lambda>x. x \<noteq> CHR 0x0A) cs) = None"
      by simp
    then have n: "last_close (takeWhile (\<lambda>x. x \<noteq> CHR 0x0A) cs) = None"
      by (rule last_close_Cons_None)
    have "sub_cond (c # cs) = c # sub_cond cs"
    proof (cases "c = CHR ''<'' \<and> startswith cs ''<''")
      case True
      then obtain rest where cs: "cs = CHR ''<'' # rest" by (cases cs) (auto simp: startswith_def)
      with n have "last_close (CHR ''<'' # takeWhile (\<lambda>x. x \<noteq> CHR 0x0A) rest) = None"
        by simp
      then have "last_close (takeWhile (\<lambda>x. x \<noteq> CHR 0x0A) rest) = None"
        by (rule last_close_Cons_None)
      with True cs show ?thesis by simp
    next
      case False
      then show ?thesis by auto
    qed
    with False Cons.IH [OF n] show ?thesis by simp
  qed
qed

lemma has_cond_Cons:
  assumes "has_cond (c # s)" "\<not> has_cond s"
  shows "c = CHR ''<'' \<and> (\<exists>b d. s = CHR ''<'' # b @ ''>>'' @ d \<and> CHR 0x0A \<notin> set b)"
proof -
  from assms(1) obtain a b d where e: "c # s = a @ ''<<'' @ b @ ''>>'' @ d" and nl: "CHR 0x0A \<notin> set b"
    unfolding has_cond_def by blast
  show ?thesis
  proof (cases a)
    case Nil
    with e nl show ?thesis by auto
  next
    case (Cons x a')
    with e have "s = a' @ ''<<'' @ b @ ''>>'' @ d" by simp
    with nl assms(2) show ?thesis unfolding has_cond_def by blast
  qed
qed

lemma sub_cond_no_cond_step:
  assumes ih: "\<not> has_cond (sub_cond cs)"
    and nomatch: "c = CHR ''<'' \<and> startswith cs ''<'' \<Longrightarrow>
                  last_close (takeWhile (\<lambda>x. x \<noteq> CHR 0x0A) (tl cs)) = None"
  shows "\<not> has_cond (c # sub_cond cs)"
proof
  assume h: "has_cond (c # sub_cond cs)"
  from has_cond_Cons [OF h ih] obtain b d where c: "c = CHR ''<''"
    and s: "sub_cond cs = CHR ''<'' # b @ ''>>'' @ d" and nl: "CHR 0x0A \<notin> set b" by blast
  have st: "startswith cs ''<''"
  proof (cases cs)
    case Nil
    with s show ?thesis by simp
  next
    case (Cons x xs)
    show ?thesis
    proof (cases "x = CHR ''<''")
      case True
      with Cons show ?thesis by (simp add: startswith_def)
    next
      case False
      with Cons s show ?thesis by simp
    qed
  qed
  then obtain rest where cs: "cs = CHR ''<'' # rest" by (cases cs) (auto simp: startswith_def)
  from nomatch c st cs have n: "last_close (takeWhile (\<lambda>x. x \<noteq> CHR 0x0A) rest) = None" by simp
  then have "last_close (takeWhile (\<lambda>x. x \<noteq> CHR 0x0A) cs) = None"
    using cs by (simp add: startswith_def)
  from sub_cond_first_segment [OF this]
  have e: "takeWhile (\<lambda>x. x \<noteq> CHR 0x0A) (sub_cond cs) = takeWhile (\<lambda>x. x \<noteq> CHR 0x0A) cs" .
  have l: "takeWhile (\<lambda>x. x \<noteq> CHR 0x0A) (CHR ''<'' # b @ ''>>'' @ d) =
           CHR ''<'' # b @ ''>>'' @ takeWhile (\<lambda>x. x \<noteq> CHR 0x0A) d"
    using nl by (simp add: takeWhile_append)
  have r: "takeWhile (\<lambda>x. x \<noteq> CHR 0x0A) (CHR ''<'' # rest) =
           CHR ''<'' # takeWhile (\<lambda>x. x \<noteq> CHR 0x0A) rest"
    by simp
  have "CHR ''<'' # takeWhile (\<lambda>x. x \<noteq> CHR 0x0A) rest =
        takeWhile (\<lambda>x. x \<noteq> CHR 0x0A) cs"
    by (simp only: cs r)
  also have "\<dots> = takeWhile (\<lambda>x. x \<noteq> CHR 0x0A) (sub_cond cs)"
    by (simp only: e)
  also have "\<dots> = CHR ''<'' # b @ ''>>'' @ takeWhile (\<lambda>x. x \<noteq> CHR 0x0A) d"
    by (simp only: s l)
  finally have "takeWhile (\<lambda>x. x \<noteq> CHR 0x0A) rest =
      b @ ''>>'' @ takeWhile (\<lambda>x. x \<noteq> CHR 0x0A) d"
    by (simp only: list.inject)
  moreover from n have "\<not> (\<exists>u v. takeWhile (\<lambda>x. x \<noteq> CHR 0x0A) rest = u @ ''>>'' @ v)"
    using last_close_None_iff [of "takeWhile (\<lambda>x. x \<noteq> CHR 0x0A) rest"] by blast
  ultimately show False by blast
qed

lemma sub_cond_no_cond: "\<not> has_cond (sub_cond s)"
proof (induction s rule: sub_cond.induct)
  case 1
  show ?case by (simp add: has_cond_def)
next
  case (2 c cs)
  show ?case
  proof (cases "c = CHR ''<'' \<and> startswith cs ''<''")
    case True
    show ?thesis
    proof (cases "last_close (takeWhile (\<lambda>x. x \<noteq> CHR 0x0A) (tl cs))")
      case None
      from "2.IH"(1) [OF True None] have ih: "\<not> has_cond (sub_cond cs)" .
      from True None have "sub_cond (c # cs) = c # sub_cond cs" by simp
      with sub_cond_no_cond_step [OF ih] None show ?thesis by simp
    next
      case (Some k)
      from "2.IH"(2) [OF True Some] True Some show ?thesis by simp
    qed
  next
    case False
    from "2.IH"(3) [OF False] have ih: "\<not> has_cond (sub_cond cs)" .
    from False have "sub_cond (c # cs) = c # sub_cond cs" by auto
    with sub_cond_no_cond_step [OF ih] False show ?thesis by auto
  qed
qed

lemma strip_no_cond: "\<not> has_cond s \<Longrightarrow> \<not> has_cond (strip s)"
proof
  assume n: "\<not> has_cond s" and h: "has_cond (strip s)"
  from strip_decomp [of s] obtain u v where s: "s = u @ strip s @ v" by blast
  from h obtain a b c where "strip s = a @ ''<<'' @ b @ ''>>'' @ c" "CHR 0x0A \<notin> set b"
    unfolding has_cond_def by blast
  with s have "s = (u @ a) @ ''<<'' @ b @ ''>>'' @ (c @ v)" by simp
  with \<open>CHR 0x0A \<notin> set b\<close> n show False unfolding has_cond_def by blast
qed

subsection \<open>One line of a body\<close>

lemma body_line_skip:
  "startswith line ''//'' \<or> startswith line ''<<'' \<Longrightarrow> body_line st line = (st, None)"
  by (simp add: body_line_def)

lemma body_line_counter:
  assumes "\<not> startswith line ''//''" "\<not> startswith line ''<<''"
  shows "fst (body_line st line) =
           (if filter is_line_tag (findall_tags line) = [] then st\<lparr>line_counter := line_counter st + 1\<rparr>
            else st)"
  using assms tag_id_empty_iff [of "findall_tags line"]
  by (auto simp: body_line_def Let_def split: prod.splits)

lemma body_line_None:
  assumes "strip (sub_tags line) = []"
  shows "snd (body_line st line) = None"
  using assms by (auto simp: body_line_def Let_def split: prod.splits)

lemma body_line_emit:
  assumes "\<not> startswith line ''//''" "\<not> startswith line ''<<''" "strip (sub_tags line) \<noteq> []"
  shows "\<exists>r. snd (body_line st line) = Some r"
  using assms by (auto simp: body_line_def Let_def split: prod.splits)

lemma body_line_Some:
  assumes "body_line st line = (st', Some r)"
  shows "\<not> startswith line ''//''" "\<not> startswith line ''<<''" "strip (sub_tags line) \<noteq> []"
  using assms by (auto simp: body_line_def Let_def split: if_splits prod.splits)

lemma body_line_ids:
  assumes "body_line st line = (st', Some r)"
  shows "line_id r = (if filter is_line_tag (findall_tags line) = []
                      then ''auto_id_'' @ str_nat (line_counter st)
                      else last (filter is_line_tag (findall_tags line)))"
    and "other_tags r = filter (\<lambda>t. \<not> is_line_tag t) (findall_tags line)"
  using assms tag_id_empty_iff [of "findall_tags line"]
  by (auto simp: body_line_def Let_def classify_tags_eq split: if_splits prod.splits)

lemma body_line_choice:
  assumes "body_line st line = (st', Some r)" "startswith (strip (sub_tags line)) ''->''"
  shows "character_name r = []"
    and "line_text r = strip (sub_cond (strip (dropWhile (\<lambda>c. c \<in> set ''->'') (strip (sub_tags line)))))"
  using assms
  by (auto simp: body_line_def Let_def split: if_splits prod.splits)

lemma body_line_plain:
  assumes "body_line st line = (st', Some r)" "\<not> startswith (strip (sub_tags line)) ''->''"
  shows "match_speaker (strip (sub_tags line)) = None \<Longrightarrow>
           character_name r = [] \<and> line_text r = strip (sub_tags line)"
    and "match_speaker (strip (sub_tags line)) = Some (g1, g2) \<Longrightarrow>
           character_name r = strip g1 \<and> line_text r = strip g2"
  using assms
  by (auto simp: body_line_def Let_def split: if_splits prod.splits)

lemma body_line_title: "current_node_title (fst (body_line st line)) = current_node_title st"
  by (simp add: body_line_def Let_def split: prod.splits)

lemma body_line_node_title: "body_line st line = (st', Some r) \<Longrightarrow> node_title r = current_node_title st"
  by (auto simp: body_line_def Let_def split: prod.splits if_splits)

subsection \<open>One line of the input\<close>

lemma process_line_Some:
  assumes "process_line st raw = (st', Some r)"
  shows "in_body st" "strip raw \<noteq> []" "\<not> startswith (strip raw) ''title:''"
    "strip raw \<noteq> ''---''" "strip raw \<noteq> ''===''" "body_line st (strip raw) = (st', Some r)"
  using assms by (auto simp: process_line_def Let_def strip_idem split: if_splits)

lemma process_line_body:
  assumes "in_body st" "strip raw \<noteq> []" "\<not> startswith (strip raw) ''title:''"
    "strip raw \<noteq> ''---''" "strip raw \<noteq> ''===''"
  shows "process_line st raw = body_line st (strip raw)"
  using assms by (simp add: process_line_def Let_def strip_idem)

lemma process_line_node_title:
  "snd (process_line st raw) = Some r \<Longrightarrow> node_title r = current_node_title st"
  using process_line_Some(6) [of st raw "fst (process_line st raw)" r] body_line_node_title
  by (metis prod.collapse)

lemma process_line_text:
  assumes "process_line st raw = (st', Some r)"
  shows "strip (sub_tags (strip raw)) \<noteq> []"
    and "line_text r = [] \<longrightarrow> startswith (strip (sub_tags (strip raw))) ''->'' \<or> character_name r \<noteq> []"
    and "\<not> startswith (strip (sub_tags (strip raw))) ''->'' \<and> character_name r = [] \<longrightarrow>
           line_text r = strip (sub_tags (strip raw))"
proof -
  let ?t = "strip (sub_tags (strip raw))"
  from process_line_Some(6) [OF assms] have b: "body_line st (strip raw) = (st', Some r)" .
  from body_line_Some(3) [OF b] show ne: "?t \<noteq> []" .
  have plain: "character_name r \<noteq> [] \<or> line_text r = ?t" if nc: "\<not> startswith ?t ''->''"
  proof (cases "match_speaker ?t")
    case None
    from body_line_plain(1) [OF b nc None] show ?thesis by simp
  next
    case (Some g)
    then have m: "match_speaker ?t = Some (fst g, snd g)" by simp
    from body_line_plain(2) [OF b nc m] speaker_nonempty [OF m] show ?thesis by simp
  qed
  from plain ne show "line_text r = [] \<longrightarrow> startswith ?t ''->'' \<or> character_name r \<noteq> []"
    by auto
  from plain show "\<not> startswith ?t ''->'' \<and> character_name r = [] \<longrightarrow> line_text r = ?t"
    by auto
qed

lemma process_line_None_counter:
  "line_counter st \<le> line_counter (fst (process_line st raw))"
proof -
  have "line_counter st \<le> line_counter (fst (body_line st line))" for line
    by (cases "startswith line ''//'' \<or> startswith line ''<<''")
      (auto simp: body_line_skip body_line_counter)
  then show ?thesis by (simp add: process_line_def Let_def)
qed

lemma process_line_Some_id:
  assumes "process_line st raw = (st', Some r)"
  shows "(is_line_tag (line_id r) \<and> line_counter st' = line_counter st) \<or>
         (line_id r = ''auto_id_'' @ str_nat (line_counter st) \<and> line_counter st' = line_counter st + 1)"
proof -
  from process_line_Some(6) [OF assms] have b: "body_line st (strip raw) = (st', Some r)" .
  from b have f: "fst (body_line st (strip raw)) = st'" by simp
  show ?thesis
  proof (cases "filter is_line_tag (findall_tags (strip raw)) = []")
    case True
    with body_line_ids(1) [OF b] body_line_counter [OF body_line_Some(1,2) [OF b], of st] f
    show ?thesis by auto
  next
    case False
    with body_line_ids(1) [OF b] body_line_counter [OF body_line_Some(1,2) [OF b], of st] f
      last_filter_line_tag [OF False]
    show ?thesis by auto
  qed
qed

lemma process_line_counter:
  "line_counter (fst (process_line st raw)) =
     line_counter st +
       (if in_body st \<and> strip raw \<noteq> [] \<and> \<not> startswith (strip raw) ''title:'' \<and>
           strip raw \<noteq> ''---'' \<and> strip raw \<noteq> ''==='' \<and>
           \<not> startswith (strip raw) ''//'' \<and> \<not> startswith (strip raw) ''<<'' \<and>
           \<not> (\<exists>t\<in>set (findall_tags (strip raw)). is_line_tag t)
        then 1 else 0)"
proof -
  have f: "(filter is_line_tag ts = []) = (\<not> (\<exists>t\<in>set ts. is_line_tag t))" for ts
    by (simp add: filter_empty_conv)
  show ?thesis
    by (cases "startswith (strip raw) ''//'' \<or> startswith (strip raw) ''<<''")
      (auto simp: process_line_def Let_def strip_idem body_line_skip body_line_counter f)
qed

lemma process_line_empty_text:
  assumes "strip (sub_tags (strip raw)) = []"
  shows "snd (process_line st raw) = None"
  using assms body_line_None [of "strip raw" st]
  by (simp add: process_line_def Let_def)

lemma command_line_skipped:
  assumes "in_body st" "startswith (strip raw) ''<<''"
  shows "process_line st raw = (st, None)"
proof -
  from assms(2) obtain cs where c: "strip raw = CHR ''<'' # cs"
    by (cases "strip raw") (auto simp: startswith_def)
  then have "strip raw \<noteq> []" "\<not> startswith (strip raw) ''title:''" "strip raw \<noteq> ''---''"
    "strip raw \<noteq> ''===''" by (auto simp: startswith_def)
  from process_line_body [OF assms(1) this] body_line_skip [of "strip raw" st] assms(2)
  show ?thesis by simp
qed

text \<open>
  A text that starts with \<^verbatim>\<open>->\<close> once the tags are gone comes from a line that starts
  with \<^verbatim>\<open>-\<close> or with a tag, so the line is neither a header, a marker, a comment nor a
  command.
\<close>

lemma choice_text_first_char:
  assumes "startswith (strip (sub_tags line)) ''->''" "line = strip raw"
  shows "\<exists>cs. line = CHR ''-'' # cs \<or> line = CHR ''#'' # cs"
proof (cases line)
  case Nil
  with assms(1) show ?thesis by (simp add: strip_def startswith_def)
next
  case (Cons c cs)
  from Cons assms(2) have sr: "strip raw = c # cs" by simp
  then have "strip raw \<noteq> []" by simp
  from strip_ends [OF this] sr have ns: "\<not> isspace c" by simp
  show ?thesis
  proof (cases "c = CHR ''#''")
    case True
    with Cons show ?thesis by simp
  next
    case False
    with Cons have "sub_tags line = c # sub_tags cs" by simp
    with strip_Cons_nonspace [OF ns, of "sub_tags cs"] obtain w where
      "strip (sub_tags line) = c # w" by auto
    with assms(1) have "c = CHR ''-''" by (simp add: startswith_def)
    with Cons show ?thesis by simp
  qed
qed

lemma choice_line_is_content:
  assumes "startswith (strip (sub_tags (strip raw))) ''->''"
  shows "strip raw \<noteq> []" "\<not> startswith (strip raw) ''title:''" "strip raw \<noteq> ''---''"
    "strip raw \<noteq> ''===''" "\<not> startswith (strip raw) ''//''" "\<not> startswith (strip raw) ''<<''"
proof -
  from choice_text_first_char [OF assms refl] obtain cs where
    c: "strip raw = CHR ''-'' # cs \<or> strip raw = CHR ''#'' # cs" by blast
  then show "strip raw \<noteq> []" "\<not> startswith (strip raw) ''title:''" "strip raw \<noteq> ''===''"
    "\<not> startswith (strip raw) ''//''" "\<not> startswith (strip raw) ''<<''"
    by (auto simp: startswith_def)
  have "\<not> startswith (strip (sub_tags ''---'')) ''->''" by code_simp
  with assms show "strip raw \<noteq> ''---''" by auto
qed

subsection \<open>The loop\<close>

text \<open>
  The loop reads a sequence of lines piece by piece; every row of the output is written
  when some line is read, in the state the lines before it have left.
\<close>

lemma parse_lines_append:
  "parse_lines st (xs @ ys) =
     (fst (parse_lines (fst (parse_lines st xs)) ys),
      snd (parse_lines st xs) @ snd (parse_lines (fst (parse_lines st xs)) ys))"
  by (induction xs arbitrary: st) (auto split: prod.splits option.splits)

lemma parse_lines_single:
  "parse_lines st [raw] = (fst (process_line st raw), emitted (snd (process_line st raw)))"
  by (auto simp: emitted_def split: prod.splits option.splits)

lemma final_state_snoc:
  "final_state (pre @ [raw]) = fst (process_line (final_state pre) raw)"
  by (simp add: final_state_def parse_lines_append parse_lines_single del: parse_lines.simps)

lemma extract_rows_snoc:
  "extract_rows (pre @ [raw]) = extract_rows pre @ emitted (snd (process_line (final_state pre) raw))"
  by (simp add: extract_rows_def final_state_def parse_lines_append parse_lines_single
        del: parse_lines.simps)

lemma rows_provenance_gen:
  "r \<in> set (snd (parse_lines st lines)) \<Longrightarrow>
     \<exists>seen raw rest. lines = seen @ raw # rest \<and>
        snd (process_line (fst (parse_lines st seen)) raw) = Some r"
proof (induction lines arbitrary: st)
  case Nil
  then show ?case by simp
next
  case (Cons a lines)
  obtain st1 out where p: "process_line st a = (st1, out)" by force
  show ?case
  proof (cases "out = Some r")
    case True
    with p have "a # lines = [] @ a # lines \<and> snd (process_line (fst (parse_lines st [])) a) = Some r"
      by simp
    then show ?thesis by blast
  next
    case False
    with Cons.prems p have "r \<in> set (snd (parse_lines st1 lines))"
      by (auto split: prod.splits option.splits)
    from Cons.IH [OF this] obtain seen raw rest where
      "lines = seen @ raw # rest" "snd (process_line (fst (parse_lines st1 seen)) raw) = Some r"
      by blast
    with p have "a # lines = (a # seen) @ raw # rest \<and>
        snd (process_line (fst (parse_lines st (a # seen))) raw) = Some r"
      by (auto split: prod.splits)
    then show ?thesis by blast
  qed
qed

lemma rows_provenance:
  assumes "r \<in> set (extract_rows lines)"
  shows "\<exists>seen raw rest. lines = seen @ raw # rest \<and>
           snd (process_line (final_state seen) raw) = Some r"
  using rows_provenance_gen [of r initial_state lines] assms
  by (simp add: extract_rows_def final_state_def)

lemma current_title_in_force: "current_node_title (final_state seen) = title_in_force seen"
proof (induction seen rule: rev_induct)
  case Nil
  show ?case by (simp add: final_state_def title_in_force_def initial_state_def)
next
  case (snoc raw seen)
  then show ?case
    by (simp add: final_state_snoc title_in_force_def process_line_def Let_def strip_idem
          body_line_title startswith_def strip_end_marker)
qed

lemma newest_title_no_header:
  "\<forall>l\<in>set older. \<not> startswith (strip l) ''title:'' \<Longrightarrow> newest_title older = ''NO_TITLE''"
  by (induction older) auto

text \<open>
  The invariant of the loop for the identifiers: the counter never decreases, every row
  written carries a \<^verbatim>\<open>line:\<close> tag or \<^verbatim>\<open>auto_id_k\<close> for a counter value \<open>k\<close> the
  loop passed through, and the generated identifiers are pairwise distinct.
\<close>

lemma parse_lines_ids:
  "parse_lines st lines = (st', rows) \<Longrightarrow>
     line_counter st \<le> line_counter st' \<and>
     (\<forall>r\<in>set rows. is_line_tag (line_id r) \<or>
        (\<exists>k. line_counter st \<le> k \<and> k < line_counter st' \<and> line_id r = ''auto_id_'' @ str_nat k)) \<and>
     distinct (filter (\<lambda>s. \<not> is_line_tag s) (map line_id rows))"
proof (induction lines arbitrary: st st' rows)
  case Nil
  then show ?case by simp
next
  case (Cons raw lines)
  obtain st1 out where p: "process_line st raw = (st1, out)" by force
  obtain st2 rows2 where q: "parse_lines st1 lines = (st2, rows2)" by force
  from Cons.IH [OF q] have
    m2: "line_counter st1 \<le> line_counter st2" and
    r2: "\<forall>r\<in>set rows2. is_line_tag (line_id r) \<or>
        (\<exists>k. line_counter st1 \<le> k \<and> k < line_counter st2 \<and> line_id r = ''auto_id_'' @ str_nat k)" and
    d2: "distinct (filter (\<lambda>s. \<not> is_line_tag s) (map line_id rows2))"
    by blast+
  from process_line_None_counter [of st raw] p have m1: "line_counter st \<le> line_counter st1" by simp
  from Cons.prems p q have st': "st' = st2"
    and rows: "rows = (case out of None \<Rightarrow> rows2 | Some r \<Rightarrow> r # rows2)" by auto
  show ?case
  proof (cases out)
    case None
    with rows have "rows = rows2" by simp
    with st' m1 m2 r2 d2 show ?thesis by (auto intro: le_trans)
  next
    case (Some r)
    with rows have rw: "rows = r # rows2" by simp
    from p Some have pr: "process_line st raw = (st1, Some r)" by simp
    from process_line_Some_id [OF pr] show ?thesis
    proof
      assume a: "is_line_tag (line_id r) \<and> line_counter st1 = line_counter st"
      with rw st' m1 m2 r2 d2 show ?thesis by auto
    next
      assume a: "line_id r = ''auto_id_'' @ str_nat (line_counter st) \<and>
                 line_counter st1 = line_counter st + 1"
      have fresh: "line_id r \<notin> set (map line_id rows2)"
      proof
        assume "line_id r \<in> set (map line_id rows2)"
        then obtain r' where r': "r' \<in> set rows2" "line_id r' = line_id r" by auto
        from a not_line_tag_auto have "\<not> is_line_tag (line_id r)" by simp
        with r' r2 obtain k where "line_counter st1 \<le> k" "line_id r' = ''auto_id_'' @ str_nat k"
          by metis
        with r' a have "k = line_counter st" "line_counter st + 1 \<le> k"
          using auto_id_inj by (metis, simp)
        then show False by simp
      qed
      have 1: "line_counter st \<le> line_counter st'" using st' m1 m2 by simp
      have 2: "\<forall>x\<in>set rows. is_line_tag (line_id x) \<or>
        (\<exists>k. line_counter st \<le> k \<and> k < line_counter st' \<and> line_id x = ''auto_id_'' @ str_nat k)"
      proof
        fix x assume "x \<in> set rows"
        with rw have "x = r \<or> x \<in> set rows2" by simp
        then show "is_line_tag (line_id x) \<or>
          (\<exists>k. line_counter st \<le> k \<and> k < line_counter st' \<and> line_id x = ''auto_id_'' @ str_nat k)"
        proof
          assume "x = r"
          with a m2 st' have "line_counter st \<le> line_counter st \<and> line_counter st < line_counter st'
              \<and> line_id x = ''auto_id_'' @ str_nat (line_counter st)" by simp
          then show ?thesis by blast
        next
          assume "x \<in> set rows2"
          with r2 have "is_line_tag (line_id x) \<or>
            (\<exists>k. line_counter st1 \<le> k \<and> k < line_counter st2 \<and> line_id x = ''auto_id_'' @ str_nat k)"
            by blast
          with m1 st' show ?thesis by (auto intro: le_trans)
        qed
      qed
      have 3: "distinct (filter (\<lambda>s. \<not> is_line_tag s) (map line_id rows))"
        using rw d2 fresh by simp
      from 1 2 3 show ?thesis by blast
    qed
  qed
qed

lemma distinct_filter_nth:
  "distinct (filter P xs) \<Longrightarrow> i < j \<Longrightarrow> j < length xs \<Longrightarrow> P (xs ! i) \<Longrightarrow> xs ! i \<noteq> xs ! j"
proof (induction xs arbitrary: i j)
  case Nil
  then show ?case by simp
next
  case (Cons x xs)
  from Cons.prems(2) obtain j' where j: "j = Suc j'" by (cases j) auto
  show ?case
  proof (cases i)
    case 0
    with Cons.prems have "P x" "x \<notin> set (filter P xs)" by auto
    moreover from Cons.prems(3) j have "xs ! j' \<in> set xs" by simp
    ultimately have "x \<noteq> xs ! j'" by auto
    with 0 j show ?thesis by simp
  next
    case (Suc i')
    from Cons.prems have "distinct (filter P xs)" by (auto split: if_splits)
    moreover from Cons.prems Suc j have "i' < j'" "j' < length xs" "P (xs ! i')" by auto
    ultimately have "xs ! i' \<noteq> xs ! j'" by (rule Cons.IH)
    with Suc j show ?thesis by simp
  qed
qed

subsection \<open>A read that fails\<close>



section \<open>The claims of the specification\<close>

subsection \<open>C1: rows with empty text\<close>

text \<open>
  Claim C1 says that no row is ever written with an empty text field, also not after
  speaker extraction or the removal of a conditional from a choice. The program checks the
  text once, right after the tags are removed (source line 75), and not again: a speaker
  line with nothing behind the colon, and a choice that consists of a conditional only,
  are written with empty text.
\<close>

theorem empty_text_row_counterexample:
  "extract_rows [''---'', ''Alice:'', ''-> <<if $seen>>''] =
     [\<lparr>line_id = ''auto_id_0'', node_title = ''NO_TITLE'', character_name = ''Alice'',
       line_text = [], other_tags = []\<rparr>,
      \<lparr>line_id = ''auto_id_1'', node_title = ''NO_TITLE'', character_name = [],
       line_text = [], other_tags = []\<rparr>]"
  by code_simp

text \<open>
  Claim C1, amended. Every row of a run is written when some line \<open>raw\<close> of the input is
  read, and the text of that line is not empty once its tags are stripped. The text field
  of the row can be empty only when the line is a choice (its stripped text starts with
  \<^verbatim>\<open>->\<close>) or a speaker was extracted (the name is then not empty); in every other
  case the text field is the tag-stripped text itself, and hence not empty.
\<close>

theorem text_nonempty_after_tag_stripping:
  assumes "r \<in> set (extract_rows lines)"
  shows "\<exists>seen raw rest.
           lines = seen @ raw # rest \<and>
           snd (process_line (final_state seen) raw) = Some r \<and>
           strip (sub_tags (strip raw)) \<noteq> [] \<and>
           (line_text r = [] \<longrightarrow>
              startswith (strip (sub_tags (strip raw))) ''->'' \<or> character_name r \<noteq> []) \<and>
           (\<not> startswith (strip (sub_tags (strip raw))) ''->'' \<and> character_name r = [] \<longrightarrow>
              line_text r = strip (sub_tags (strip raw)) \<and> line_text r \<noteq> [])"
proof -
  from rows_provenance [OF assms] obtain seen raw rest where
    l: "lines = seen @ raw # rest" and e: "snd (process_line (final_state seen) raw) = Some r"
    by blast
  from e have p: "process_line (final_state seen) raw = (fst (process_line (final_state seen) raw), Some r)"
    by (metis prod.collapse)
  note t = process_line_text [OF p]
  from t(1,3) have "\<not> startswith (strip (sub_tags (strip raw))) ''->'' \<and> character_name r = [] \<longrightarrow>
      line_text r = strip (sub_tags (strip raw)) \<and> line_text r \<noteq> []"
    by auto
  with l e t(1,2) show ?thesis by blast
qed

theorem text_nonempty_after_tag_stripping_witness:
  "\<lparr>line_id = ''auto_id_0'', node_title = ''NO_TITLE'', character_name = ''Alice'',
     line_text = [], other_tags = []\<rparr> \<in> set (extract_rows [''---'', ''Alice:'', ''Plain words #wave''])
   \<and> (\<exists>seen raw rest.
         [''---'', ''Alice:'', ''Plain words #wave''] = seen @ raw # rest \<and>
         snd (process_line (final_state seen) raw) =
           Some \<lparr>line_id = ''auto_id_0'', node_title = ''NO_TITLE'', character_name = ''Alice'',
                  line_text = [], other_tags = []\<rparr> \<and>
         strip (sub_tags (strip raw)) \<noteq> [])
   \<and> \<lparr>line_id = ''auto_id_1'', node_title = ''NO_TITLE'', character_name = [],
     line_text = ''Plain words'', other_tags = [''wave'']\<rparr>
       \<in> set (extract_rows [''---'', ''Alice:'', ''Plain words #wave''])
   \<and> (\<exists>seen raw rest.
         [''---'', ''Alice:'', ''Plain words #wave''] = seen @ raw # rest \<and>
         snd (process_line (final_state seen) raw) =
           Some \<lparr>line_id = ''auto_id_1'', node_title = ''NO_TITLE'', character_name = [],
                  line_text = ''Plain words'', other_tags = [''wave'']\<rparr> \<and>
         strip (sub_tags (strip raw)) \<noteq> [])"
proof -
  let ?L = "[''---'', ''Alice:'', ''Plain words #wave'']"
  let ?r1 = "\<lparr>line_id = ''auto_id_0'', node_title = ''NO_TITLE'', character_name = ''Alice'',
     line_text = [], other_tags = []\<rparr>"
  let ?r2 = "\<lparr>line_id = ''auto_id_1'', node_title = ''NO_TITLE'', character_name = [],
     line_text = ''Plain words'', other_tags = [''wave'']\<rparr>"
  have h1: "?r1 \<in> set (extract_rows ?L)" by code_simp
  have h2: "?r2 \<in> set (extract_rows ?L)" by code_simp
  from text_nonempty_after_tag_stripping [OF h1]
  have c1: "\<exists>seen raw rest. ?L = seen @ raw # rest \<and>
         snd (process_line (final_state seen) raw) = Some ?r1 \<and>
         strip (sub_tags (strip raw)) \<noteq> []" by blast
  from text_nonempty_after_tag_stripping [OF h2]
  have c2: "\<exists>seen raw rest. ?L = seen @ raw # rest \<and>
         snd (process_line (final_state seen) raw) = Some ?r2 \<and>
         strip (sub_tags (strip raw)) \<noteq> []" by blast
  from h1 h2 c1 c2 show ?thesis by blast
qed

subsection \<open>C2: which tag becomes the identifier\<close>

text \<open>
  Claim C2 says that the first tag starting with \<^verbatim>\<open>line:\<close> becomes the identifier. The
  loop over the tags assigns \<^verbatim>\<open>line_id\<close> at every such tag and does not stop, so the
  last one stays: the line below has the tags \<^verbatim>\<open>line:a\<close> and \<^verbatim>\<open>line:b\<close>, and its
  row carries \<^verbatim>\<open>line:b\<close>.
\<close>

theorem first_line_tag_counterexample:
  "filter is_line_tag (findall_tags ''Hi #line:a #line:b'') = [''line:a'', ''line:b'']
   \<and> extract_rows [''---'', ''Hi #line:a #line:b''] =
       [\<lparr>line_id = ''line:b'', node_title = ''NO_TITLE'', character_name = [],
         line_text = ''Hi'', other_tags = []\<rparr>]"
  by code_simp

text \<open>
  Claim C2, amended. When a line that has at least one tag starting case-insensitively
  with \<^verbatim>\<open>line:\<close> is written as a row, the identifier of the row is the last such tag
  from left to right. It is one of the tags of the line, unchanged (prefix and case as
  authored). The tags of the row are all tags of the line that do not start with
  \<^verbatim>\<open>line:\<close>, in their order.
\<close>

theorem identifier_is_last_line_tag:
  assumes "process_line st raw = (st', Some r)"
    and "\<exists>t\<in>set (findall_tags (strip raw)). is_line_tag t"
  shows "line_id r = last (filter is_line_tag (findall_tags (strip raw)))
       \<and> is_line_tag (line_id r)
       \<and> line_id r \<in> set (findall_tags (strip raw))
       \<and> other_tags r = filter (\<lambda>t. \<not> is_line_tag t) (findall_tags (strip raw))"
proof -
  from assms(2) have ne: "filter is_line_tag (findall_tags (strip raw)) \<noteq> []"
    by (simp add: filter_empty_conv)
  from process_line_Some(6) [OF assms(1)] have b: "body_line st (strip raw) = (st', Some r)" .
  from body_line_ids [OF b] ne last_filter_line_tag [OF ne] show ?thesis by simp
qed

theorem identifier_is_last_line_tag_witness:
  "process_line \<lparr>current_node_title = ''Start'', in_body = True, line_counter = 3\<rparr>
       ''Alice: Hello there. #line:001 #happy'' =
     (\<lparr>current_node_title = ''Start'', in_body = True, line_counter = 3\<rparr>,
      Some \<lparr>line_id = ''line:001'', node_title = ''Start'', character_name = ''Alice'',
            line_text = ''Hello there.'', other_tags = [''happy'']\<rparr>)
   \<and> (\<exists>t\<in>set (findall_tags (strip ''Alice: Hello there. #line:001 #happy'')). is_line_tag t)
   \<and> last (filter is_line_tag (findall_tags (strip ''Alice: Hello there. #line:001 #happy''))) =
       ''line:001''
   \<and> filter (\<lambda>t. \<not> is_line_tag t) (findall_tags (strip ''Alice: Hello there. #line:001 #happy'')) =
       [''happy'']"
proof -
  let ?st = "\<lparr>current_node_title = ''Start'', in_body = True, line_counter = 3\<rparr>"
  let ?raw = "''Alice: Hello there. #line:001 #happy''"
  let ?r = "\<lparr>line_id = ''line:001'', node_title = ''Start'', character_name = ''Alice'',
            line_text = ''Hello there.'', other_tags = [''happy'']\<rparr>"
  have h1: "process_line ?st ?raw = (?st, Some ?r)" by code_simp
  have h2: "\<exists>t\<in>set (findall_tags (strip ?raw)). is_line_tag t" by code_simp
  from identifier_is_last_line_tag [OF h1 h2] h1 h2 show ?thesis by simp
qed

subsection \<open>C3: uniqueness of identifiers\<close>

text \<open>
  Claim C3 says that no two rows of a run have the same identifier. An identifier taken from
  a tag is copied as it is and never compared with the earlier ones: two lines tagged
  \<^verbatim>\<open>#line:1\<close> give two rows with the identifier \<^verbatim>\<open>line:1\<close>.
\<close>

theorem duplicate_identifier_counterexample:
  "extract_rows [''---'', ''A #line:1'', ''B #line:1''] =
     [\<lparr>line_id = ''line:1'', node_title = ''NO_TITLE'', character_name = [],
       line_text = ''A'', other_tags = []\<rparr>,
      \<lparr>line_id = ''line:1'', node_title = ''NO_TITLE'', character_name = [],
       line_text = ''B'', other_tags = []\<rparr>]"
  by code_simp

text \<open>
  Claim C3, amended. Two rows at different positions of one run have the same identifier
  only if both identifiers are \<^verbatim>\<open>line:\<close> tags. So the generated identifiers are pairwise
  distinct, and none of them equals an identifier that came from a tag.
\<close>

theorem synthesized_ids_unique:
  assumes "i < j" and "j < length (extract_rows lines)"
    and "line_id (extract_rows lines ! i) = line_id (extract_rows lines ! j)"
  shows "is_line_tag (line_id (extract_rows lines ! i)) \<and>
         is_line_tag (line_id (extract_rows lines ! j))"
proof -
  let ?ids = "map line_id (extract_rows lines)"
  have "parse_lines initial_state lines = (final_state lines, extract_rows lines)"
    by (simp add: final_state_def extract_rows_def)
  from parse_lines_ids [OF this] have d: "distinct (filter (\<lambda>s. \<not> is_line_tag s) ?ids)" by blast
  from assms have len: "i < length ?ids" "j < length ?ids" by simp_all
  have "is_line_tag (?ids ! i)"
  proof (rule ccontr)
    assume "\<not> is_line_tag (?ids ! i)"
    with distinct_filter_nth [OF d assms(1) len(2)] have "?ids ! i \<noteq> ?ids ! j" by simp
    with assms len show False by simp
  qed
  with assms len show ?thesis by simp
qed

theorem synthesized_ids_unique_witness:
  "(0::nat) < 1 \<and> 1 < length (extract_rows [''---'', ''A #line:1'', ''B #line:1'', ''C''])
   \<and> line_id (extract_rows [''---'', ''A #line:1'', ''B #line:1'', ''C''] ! 0) =
       line_id (extract_rows [''---'', ''A #line:1'', ''B #line:1'', ''C''] ! 1)
   \<and> is_line_tag (line_id (extract_rows [''---'', ''A #line:1'', ''B #line:1'', ''C''] ! 0))
   \<and> is_line_tag (line_id (extract_rows [''---'', ''A #line:1'', ''B #line:1'', ''C''] ! 1))"
proof -
  let ?L = "[''---'', ''A #line:1'', ''B #line:1'', ''C'']"
  have h1: "(0::nat) < 1" by simp
  have h2: "1 < length (extract_rows ?L)" by code_simp
  have h3: "line_id (extract_rows ?L ! 0) = line_id (extract_rows ?L ! 1)" by code_simp
  from synthesized_ids_unique [OF h1 h2 h3] h1 h2 h3 show ?thesis by blast
qed

subsection \<open>C4: the counter on lines that are dropped\<close>

text \<open>
  Claim C4. A line whose text is empty once the tags are stripped gives no row. The counter
  moves on any line, by one, exactly when the line is read in body mode, is not blank, is no
  \<^verbatim>\<open>title:\<close> header, no \<^verbatim>\<open>---\<close> and no \<^verbatim>\<open>===\<close>, starts neither with \<^verbatim>\<open>//\<close>
  nor with \<^verbatim>\<open><<\<close>, and has no tag starting with \<^verbatim>\<open>line:\<close>; whether the line
  gives a row plays no part. So the generated identifiers can leave gaps: in the last
  conjunct the line \<^verbatim>\<open>#mood\<close> uses up \<^verbatim>\<open>auto_id_1\<close>.
\<close>

theorem counter_advances_on_discarded_lines:
  "(strip (sub_tags (strip raw)) = [] \<longrightarrow> snd (process_line st raw) = None)
   \<and> line_counter (fst (process_line st raw)) =
       line_counter st +
         (if in_body st \<and> strip raw \<noteq> [] \<and> \<not> startswith (strip raw) ''title:'' \<and>
             strip raw \<noteq> ''---'' \<and> strip raw \<noteq> ''==='' \<and>
             \<not> startswith (strip raw) ''//'' \<and> \<not> startswith (strip raw) ''<<'' \<and>
             \<not> (\<exists>t\<in>set (findall_tags (strip raw)). is_line_tag t)
          then 1 else 0)
   \<and> map line_id (extract_rows [''---'', ''One'', ''#mood'', ''Two'']) = [''auto_id_0'', ''auto_id_2'']"
proof -
  have "map line_id (extract_rows [''---'', ''One'', ''#mood'', ''Two'']) = [''auto_id_0'', ''auto_id_2'']"
    by code_simp
  with process_line_counter [of st raw] process_line_empty_text [of raw st] show ?thesis
    by blast
qed

theorem counter_advances_on_discarded_lines_witness:
  "strip (sub_tags (strip ''#mood'')) = []
   \<and> snd (process_line \<lparr>current_node_title = ''Start'', in_body = True, line_counter = 4\<rparr> ''#mood'') = None
   \<and> line_counter (fst (process_line \<lparr>current_node_title = ''Start'', in_body = True, line_counter = 4\<rparr> ''#mood'')) = 5"
proof -
  let ?st = "\<lparr>current_node_title = ''Start'', in_body = True, line_counter = 4\<rparr>"
  have h: "strip (sub_tags (strip ''#mood'')) = []" by code_simp
  have c: "in_body ?st \<and> strip ''#mood'' \<noteq> [] \<and> \<not> startswith (strip ''#mood'') ''title:'' \<and>
             strip ''#mood'' \<noteq> ''---'' \<and> strip ''#mood'' \<noteq> ''==='' \<and>
             \<not> startswith (strip ''#mood'') ''//'' \<and> \<not> startswith (strip ''#mood'') ''<<'' \<and>
             \<not> (\<exists>t\<in>set (findall_tags (strip ''#mood'')). is_line_tag t)"
    by code_simp
  from counter_advances_on_discarded_lines [of "''#mood''" ?st] h c show ?thesis
    by simp
qed

subsection \<open>C5: the node title of a row\<close>

text \<open>
  Claim C5. \<open>title_in_force\<close> is the title as the specification words it. Every row of a
  run was written when some line \<open>raw\<close> was read after the lines \<open>seen\<close>, and its node title
  is the title in force after \<open>seen\<close>; the variable \<^verbatim>\<open>current_node_title\<close> of the loop
  holds the title in force after every prefix of the input. A \<^verbatim>\<open>title:\<close> header sets the
  title to the trimmed text behind its first colon (the colon is the sixth character),
  leaves body mode and writes no row; a line \<^verbatim>\<open>===\<close> sets the title to
  \<^verbatim>\<open>NO_TITLE\<close>, leaves body mode and writes no row; as long as no header was read the
  title is \<^verbatim>\<open>NO_TITLE\<close>.
\<close>

theorem node_title_is_title_in_force:
  "(r \<in> set (extract_rows lines) \<longrightarrow>
      (\<exists>seen raw rest. lines = seen @ raw # rest \<and>
         extract_rows (seen @ [raw]) = extract_rows seen @ [r] \<and>
         node_title r = title_in_force seen))
   \<and> (extract_rows (seen @ [raw]) = extract_rows seen @ [r] \<longrightarrow> node_title r = title_in_force seen)
   \<and> current_node_title (final_state seen) = title_in_force seen
   \<and> (startswith (strip raw) ''title:'' \<longrightarrow>
        title_in_force (seen @ [raw]) = strip (drop 6 (strip raw)) \<and>
        \<not> in_body (final_state (seen @ [raw])) \<and>
        extract_rows (seen @ [raw]) = extract_rows seen)
   \<and> (strip raw = ''==='' \<longrightarrow>
        title_in_force (seen @ [raw]) = ''NO_TITLE'' \<and>
        \<not> in_body (final_state (seen @ [raw])) \<and>
        extract_rows (seen @ [raw]) = extract_rows seen)
   \<and> ((\<forall>l\<in>set seen. \<not> startswith (strip l) ''title:'') \<longrightarrow> title_in_force seen = ''NO_TITLE'')"
proof -
  have A: "node_title r = title_in_force seen"
    if "extract_rows (seen @ [raw]) = extract_rows seen @ [r]" for seen raw r
  proof -
    from that have "emitted (snd (process_line (final_state seen) raw)) = [r]"
      by (simp add: extract_rows_snoc)
    then have "snd (process_line (final_state seen) raw) = Some r"
      by (simp add: emitted_def split: option.splits)
    then show ?thesis
      by (simp add: process_line_node_title current_title_in_force)
  qed
  have B: "\<exists>seen raw rest. lines = seen @ raw # rest \<and>
         extract_rows (seen @ [raw]) = extract_rows seen @ [r] \<and>
         node_title r = title_in_force seen" if "r \<in> set (extract_rows lines)"
  proof -
    from rows_provenance [OF that] obtain seen raw rest where
      l: "lines = seen @ raw # rest" and e: "snd (process_line (final_state seen) raw) = Some r"
      by blast
    from e have x: "extract_rows (seen @ [raw]) = extract_rows seen @ [r]"
      by (simp add: extract_rows_snoc emitted_def)
    from l x A [OF x] show ?thesis by blast
  qed
  have six: "drop 1 (dropWhile (\<lambda>c. c \<noteq> CHR '':'') l) = drop 6 l" if "startswith l ''title:''" for l
  proof -
    from that have "take (length ''title:'') l = ''title:''" by (simp only: startswith_def)
    moreover have "length ''title:'' = 6" by simp
    ultimately have "take 6 l = ''title:''" by (simp only:)
    then have "l = ''title:'' @ drop 6 l" by (metis append_take_drop_id)
    then obtain w where "l = ''title:'' @ w" by blast
    then show ?thesis by simp
  qed
  have C: "title_in_force (seen @ [raw]) = strip (drop 6 (strip raw)) \<and>
        \<not> in_body (final_state (seen @ [raw])) \<and>
        extract_rows (seen @ [raw]) = extract_rows seen" if "startswith (strip raw) ''title:''"
    using that six [OF that]
    by (auto simp: title_in_force_def final_state_snoc extract_rows_snoc process_line_def Let_def
        emitted_def startswith_def)
  have D: "title_in_force (seen @ [raw]) = ''NO_TITLE'' \<and>
        \<not> in_body (final_state (seen @ [raw])) \<and>
        extract_rows (seen @ [raw]) = extract_rows seen" if "strip raw = ''===''"
    using that
    by (simp add: title_in_force_def final_state_snoc extract_rows_snoc process_line_def Let_def
        emitted_def startswith_def strip_end_marker)
  have E: "title_in_force seen = ''NO_TITLE''" if "\<forall>l\<in>set seen. \<not> startswith (strip l) ''title:''"
    using that by (simp add: title_in_force_def newest_title_no_header)
  from A B C D E current_title_in_force show ?thesis by blast
qed

theorem node_title_is_title_in_force_witness:
  "extract_rows ([''title: Start'', ''---''] @ [''Bob: Hi'']) =
       extract_rows [''title: Start'', ''---''] @
         [\<lparr>line_id = ''auto_id_0'', node_title = ''Start'', character_name = ''Bob'',
            line_text = ''Hi'', other_tags = []\<rparr>]
   \<and> title_in_force [''title: Start'', ''---''] = ''Start''
   \<and> startswith (strip ''title: Start'') ''title:''
   \<and> \<not> in_body (final_state ([''---''] @ [''title: Start'']))
   \<and> strip ''==='' = ''===''
   \<and> title_in_force ([''title: Start'', ''---'', ''Bob: Hi''] @ [''==='']) = ''NO_TITLE''
   \<and> list_all (\<lambda>l. \<not> startswith (strip l) ''title:'') [''---'', ''Hello'']
   \<and> title_in_force [''---'', ''Hello''] = ''NO_TITLE''
   \<and> \<lparr>line_id = ''auto_id_0'', node_title = ''Start'', character_name = ''Bob'',
        line_text = ''Hi'', other_tags = []\<rparr>
       \<in> set (extract_rows [''title: Start'', ''---'', ''Bob: Hi'', ''===''])
   \<and> (\<exists>seen raw rest.
         [''title: Start'', ''---'', ''Bob: Hi'', ''===''] = seen @ raw # rest \<and>
         title_in_force seen = ''Start'')"
proof -
  let ?r = "\<lparr>line_id = ''auto_id_0'', node_title = ''Start'', character_name = ''Bob'',
            line_text = ''Hi'', other_tags = []\<rparr>"
  have h1: "extract_rows ([''title: Start'', ''---''] @ [''Bob: Hi'']) =
       extract_rows [''title: Start'', ''---''] @ [?r]"
    by code_simp
  have h2: "startswith (strip ''title: Start'') ''title:''" by code_simp
  have h3: "strip ''==='' = ''===''" by code_simp
  have h4: "\<forall>l\<in>set [''---'', ''Hello'']. \<not> startswith (strip l) ''title:''" by code_simp
  have c1: "title_in_force [''title: Start'', ''---''] = ''Start''"
    using node_title_is_title_in_force [of ?r "[]" "[''title: Start'', ''---'']" "''Bob: Hi''"] h1
    by simp
  have c2: "\<not> in_body (final_state ([''---''] @ [''title: Start'']))"
    using node_title_is_title_in_force [of ?r "[]" "[''---'']" "''title: Start''"] h2
    by blast
  have c3: "title_in_force ([''title: Start'', ''---'', ''Bob: Hi''] @ [''==='']) = ''NO_TITLE''"
    using node_title_is_title_in_force [of ?r "[]" "[''title: Start'', ''---'', ''Bob: Hi'']" "''===''"] h3
    by blast
  have c4: "title_in_force [''---'', ''Hello''] = ''NO_TITLE''"
    using node_title_is_title_in_force [of ?r "[]" "[''---'', ''Hello'']" "''x''"] h4
    by blast
  have h5: "?r \<in> set (extract_rows [''title: Start'', ''---'', ''Bob: Hi'', ''===''])"
    by code_simp
  from node_title_is_title_in_force
    [of ?r "[''title: Start'', ''---'', ''Bob: Hi'', ''==='']" "[]" "''x''"] h5
  obtain seen raw rest where
    "[''title: Start'', ''---'', ''Bob: Hi'', ''===''] = seen @ raw # rest"
    "node_title ?r = title_in_force seen" by blast
  then have c5: "\<exists>seen raw rest.
         [''title: Start'', ''---'', ''Bob: Hi'', ''===''] = seen @ raw # rest \<and>
         title_in_force seen = ''Start''" by auto
  from h1 h2 h3 h4 h5 c1 c2 c3 c4 c5 show ?thesis by (simp only: list_all_iff) blast
qed

subsection \<open>C6: choices\<close>

text \<open>
  Claim C6. In body mode (any title, any counter) the line
  \<^verbatim>\<open>-> Leave <<if $flag>> #line:002\<close> gives exactly the row with identifier
  \<^verbatim>\<open>line:002\<close>, no speaker, text \<^verbatim>\<open>Leave\<close> and no tags, and leaves the state as it
  is. In general, a line read in body mode whose text starts with \<^verbatim>\<open>->\<close> once the tags
  are stripped gives a row; its speaker is empty; its text is the stripped text without its
  leading \<^verbatim>\<open>-\<close> and \<^verbatim>\<open>>\<close> characters, trimmed, with the conditionals removed
  and trimmed again; and no conditional (\<^verbatim>\<open><<\<close>, then \<^verbatim>\<open>>>\<close> on the same
  line) is left in it.
\<close>

theorem choice_line_processing:
  "process_line \<lparr>current_node_title = title, in_body = True, line_counter = n\<rparr>
       ''-> Leave <<if $flag>> #line:002'' =
     (\<lparr>current_node_title = title, in_body = True, line_counter = n\<rparr>,
      Some \<lparr>line_id = ''line:002'', node_title = title, character_name = [],
            line_text = ''Leave'', other_tags = []\<rparr>)
   \<and> (in_body st \<and> startswith (strip (sub_tags (strip raw))) ''->'' \<longrightarrow>
        (\<exists>r. snd (process_line st raw) = Some r \<and>
             character_name r = [] \<and>
             line_text r =
               strip (sub_cond (strip (dropWhile (\<lambda>c. c = CHR ''-'' \<or> c = CHR ''>'')
                                        (strip (sub_tags (strip raw)))))) \<and>
             \<not> (\<exists>a b c. line_text r = a @ ''<<'' @ b @ ''>>'' @ c \<and> CHR 0x0A \<notin> set b)))"
proof -
  let ?st0 = "\<lparr>current_node_title = title, in_body = True, line_counter = n\<rparr>"
  let ?raw0 = "''-> Leave <<if $flag>> #line:002''"
  have s0: "strip ?raw0 = ?raw0" by code_simp
  have "findall_tags ?raw0 = [''line:002'']" by code_simp
  moreover have "strip (sub_tags ?raw0) = ''-> Leave <<if $flag>>''" by code_simp
  moreover have "strip (sub_cond (strip (dropWhile (\<lambda>c. c \<in> set ''->'') ''-> Leave <<if $flag>>''))) =
      ''Leave''" by code_simp
  moreover have "is_line_tag ''line:002''" by code_simp
  moreover have "match_speaker ''Leave'' = None" by code_simp
  ultimately have b0: "body_line ?st0 ?raw0 =
     (?st0, Some \<lparr>line_id = ''line:002'', node_title = title, character_name = [],
            line_text = ''Leave'', other_tags = []\<rparr>)"
    by (simp add: body_line_def startswith_def)
  have "process_line ?st0 ?raw0 = body_line ?st0 (strip ?raw0)"
    by (rule process_line_body) (simp_all add: s0 startswith_def)
  with b0 s0 have A: "process_line ?st0 ?raw0 =
     (?st0, Some \<lparr>line_id = ''line:002'', node_title = title, character_name = [],
            line_text = ''Leave'', other_tags = []\<rparr>)" by simp
  have B: "\<exists>r. snd (process_line st raw) = Some r \<and>
             character_name r = [] \<and>
             line_text r =
               strip (sub_cond (strip (dropWhile (\<lambda>c. c = CHR ''-'' \<or> c = CHR ''>'')
                                        (strip (sub_tags (strip raw)))))) \<and>
             \<not> (\<exists>a b c. line_text r = a @ ''<<'' @ b @ ''>>'' @ c \<and> CHR 0x0A \<notin> set b)"
    if ib: "in_body st" and ch: "startswith (strip (sub_tags (strip raw))) ''->''"
  proof -
    note c = choice_line_is_content [OF ch]
    from process_line_body [OF ib c(1,2,3,4)]
    have p: "process_line st raw = body_line st (strip raw)" .
    from ch have ne: "strip (sub_tags (strip raw)) \<noteq> []" by (auto simp: startswith_def)
    from body_line_emit [OF c(5,6) ne] obtain r where r: "snd (body_line st (strip raw)) = Some r"
      by blast
    then have b: "body_line st (strip raw) = (fst (body_line st (strip raw)), Some r)"
      by (metis prod.collapse)
    have pred: "(\<lambda>c. c \<in> set ''->'') = (\<lambda>c. c = CHR ''-'' \<or> c = CHR ''>'')" by auto
    from body_line_choice [OF b ch] have n: "character_name r = []"
      and t: "line_text r =
               strip (sub_cond (strip (dropWhile (\<lambda>c. c = CHR ''-'' \<or> c = CHR ''>'')
                                        (strip (sub_tags (strip raw))))))"
      by (simp_all only: pred)
    have "\<not> has_cond (line_text r)"
      unfolding t by (rule strip_no_cond) (rule sub_cond_no_cond)
    then have "\<not> (\<exists>a b c. line_text r = a @ ''<<'' @ b @ ''>>'' @ c \<and> CHR 0x0A \<notin> set b)"
      unfolding has_cond_def .
    with p r n t show ?thesis by simp
  qed
  from A B show ?thesis by blast
qed

theorem choice_line_processing_witness:
  "in_body \<lparr>current_node_title = ''Door'', in_body = True, line_counter = 0\<rparr>
   \<and> startswith (strip (sub_tags (strip ''  -> Stay <<if $a>> or <<if $b>> go #t''))) ''->''
   \<and> process_line \<lparr>current_node_title = ''Door'', in_body = True, line_counter = 0\<rparr>
        ''  -> Stay <<if $a>> or <<if $b>> go #t'' =
       (\<lparr>current_node_title = ''Door'', in_body = True, line_counter = 1\<rparr>,
        Some \<lparr>line_id = ''auto_id_0'', node_title = ''Door'', character_name = [],
              line_text = ''Stay  go'', other_tags = [''t'']\<rparr>)
   \<and> \<not> (\<exists>a b c. ''Stay  go'' = a @ ''<<'' @ b @ ''>>'' @ c \<and> CHR 0x0A \<notin> set b)"
proof -
  let ?st = "\<lparr>current_node_title = ''Door'', in_body = True, line_counter = 0\<rparr>"
  let ?raw = "''  -> Stay <<if $a>> or <<if $b>> go #t''"
  have h1: "in_body ?st" by simp
  have h2: "startswith (strip (sub_tags (strip ?raw))) ''->''" by code_simp
  have e: "process_line ?st ?raw =
       (\<lparr>current_node_title = ''Door'', in_body = True, line_counter = 1\<rparr>,
        Some \<lparr>line_id = ''auto_id_0'', node_title = ''Door'', character_name = [],
              line_text = ''Stay  go'', other_tags = [''t'']\<rparr>)" by code_simp
  from choice_line_processing [of "''x''" 0 ?st ?raw] h1 h2 obtain r where
    r: "snd (process_line ?st ?raw) = Some r" and
    nc: "\<not> (\<exists>a b c. line_text r = a @ ''<<'' @ b @ ''>>'' @ c \<and> CHR 0x0A \<notin> set b)"
    by blast
  from r e have "line_text r = ''Stay  go''" by auto
  with nc have "\<not> (\<exists>a b c. ''Stay  go'' = a @ ''<<'' @ b @ ''>>'' @ c \<and> CHR 0x0A \<notin> set b)"
    by metis
  with h1 h2 e show ?thesis by blast
qed

subsection \<open>C7: identifiers fed back as tags\<close>

text \<open>
  Claim C7 says that a body line carrying the tag \<^verbatim>\<open>#line:X\<close> gets the identifier
  \<^verbatim>\<open>line:X\<close>. A later \<^verbatim>\<open>line:\<close> tag on the same line overrides it: the line below
  carries \<^verbatim>\<open>#line:abc\<close>, has the text \<^verbatim>\<open>Bob: Hi\<close> besides its tags, and its row
  has the identifier \<^verbatim>\<open>line:zz\<close>.
\<close>

theorem overridden_line_tag_counterexample:
  "findall_tags ''Bob: Hi #line:abc #line:zz'' = [''line:abc'', ''line:zz'']
   \<and> strip (sub_tags ''Bob: Hi #line:abc #line:zz'') = ''Bob: Hi''
   \<and> extract_rows [''---'', ''Bob: Hi #line:abc #line:zz''] =
       [\<lparr>line_id = ''line:zz'', node_title = ''NO_TITLE'', character_name = ''Bob'',
         line_text = ''Hi'', other_tags = []\<rparr>]"
  by code_simp

text \<open>
  Claim C7, amended. A line read in body mode that is no header, comment or command, whose
  text besides the tags is not empty, and whose last tag starting with \<^verbatim>\<open>line:\<close> is
  \<^verbatim>\<open>line:X\<close>, gives a row with the identifier \<^verbatim>\<open>line:X\<close>, unchanged. This is so in
  particular when \<^verbatim>\<open> #line:X\<close> is written at the end of a line, for every \<open>X\<close>
  without whitespace: the tag is then the last tag of the line.
\<close>

theorem line_tag_round_trip:
  "(in_body st \<and> \<not> startswith (strip raw) ''title:'' \<and>
    \<not> startswith (strip raw) ''//'' \<and> \<not> startswith (strip raw) ''<<'' \<and>
    findall_tags (strip raw) = pre @ (''line:'' @ X) # post \<and>
    (\<forall>t\<in>set post. \<not> is_line_tag t) \<and>
    strip (sub_tags (strip raw)) \<noteq> []
    \<longrightarrow> (\<exists>r. snd (process_line st raw) = Some r \<and> line_id r = ''line:'' @ X))
   \<and> ((\<forall>c\<in>set X. \<not> isspace c) \<longrightarrow>
        (\<exists>pre'. findall_tags (strip (b @ '' #line:'' @ X)) = pre' @ [''line:'' @ X]))"
proof -
  have A: "\<exists>r. snd (process_line st raw) = Some r \<and> line_id r = ''line:'' @ X"
    if ib: "in_body st" and nt: "\<not> startswith (strip raw) ''title:''"
      and nc: "\<not> startswith (strip raw) ''//''" "\<not> startswith (strip raw) ''<<''"
      and tags: "findall_tags (strip raw) = pre @ (''line:'' @ X) # post"
      and last: "\<forall>t\<in>set post. \<not> is_line_tag t"
      and ne: "strip (sub_tags (strip raw)) \<noteq> []"
  proof -
    have "findall_tags [] = []" "findall_tags ''---'' = []" "findall_tags ''==='' = []"
      by code_simp+
    with tags have c: "strip raw \<noteq> []" "strip raw \<noteq> ''---''" "strip raw \<noteq> ''===''" by auto
    from process_line_body [OF ib c(1) nt c(2,3)]
    have p: "process_line st raw = body_line st (strip raw)" .
    from body_line_emit [OF nc ne] obtain r where r: "snd (body_line st (strip raw)) = Some r"
      by blast
    then have b: "body_line st (strip raw) = (fst (body_line st (strip raw)), Some r)"
      by (metis prod.collapse)
    from last have "filter is_line_tag post = []" by (simp add: filter_empty_conv)
    with tags have "filter is_line_tag (findall_tags (strip raw)) =
        filter is_line_tag pre @ [''line:'' @ X]"
      using is_line_tag_prefix [of X] by simp
    with body_line_ids(1) [OF b] have "line_id r = ''line:'' @ X" by simp
    with p r show ?thesis by simp
  qed
  have B: "\<exists>pre'. findall_tags (strip (b @ '' #line:'' @ X)) = pre' @ [''line:'' @ X]"
    if "\<forall>c\<in>set X. \<not> isspace c"
  proof -
    have "\<forall>c\<in>set (''line:'' @ X). \<not> isspace c" using that by (simp add: isspace_def)
    moreover have "''line:'' @ X \<noteq> []" by simp
    ultimately have "\<exists>pre'. findall_tags (strip (b @ '' #'' @ (''line:'' @ X))) = pre' @ [''line:'' @ X]"
      by (rule appended_tag_is_last [rotated])
    then show ?thesis by simp
  qed
  from A B show ?thesis by blast
qed

theorem line_tag_round_trip_witness:
  "in_body \<lparr>current_node_title = ''Start'', in_body = True, line_counter = 2\<rparr>
   \<and> \<not> startswith (strip ''Bob: Hi #line:old #mood #line:abc123 #late'') ''title:''
   \<and> \<not> startswith (strip ''Bob: Hi #line:old #mood #line:abc123 #late'') ''//''
   \<and> \<not> startswith (strip ''Bob: Hi #line:old #mood #line:abc123 #late'') ''<<''
   \<and> findall_tags (strip ''Bob: Hi #line:old #mood #line:abc123 #late'') =
       [''line:old'', ''mood''] @ (''line:'' @ ''abc123'') # [''late'']
   \<and> list_all (\<lambda>t. \<not> is_line_tag t) [''late'']
   \<and> strip (sub_tags (strip ''Bob: Hi #line:old #mood #line:abc123 #late'')) \<noteq> []
   \<and> (\<exists>r. snd (process_line \<lparr>current_node_title = ''Start'', in_body = True, line_counter = 2\<rparr>
                  ''Bob: Hi #line:old #mood #line:abc123 #late'') = Some r \<and>
            line_id r = ''line:abc123'')
   \<and> list_all (\<lambda>c. \<not> isspace c) ''abc123''
   \<and> (\<exists>pre'. findall_tags (strip (''Bob: Hi'' @ '' #line:'' @ ''abc123'')) = pre' @ [''line:abc123''])"
proof -
  let ?st = "\<lparr>current_node_title = ''Start'', in_body = True, line_counter = 2\<rparr>"
  let ?raw = "''Bob: Hi #line:old #mood #line:abc123 #late''"
  have h1: "in_body ?st" by simp
  have h2: "\<not> startswith (strip ?raw) ''title:''" by code_simp
  have h3: "\<not> startswith (strip ?raw) ''//''" by code_simp
  have h4: "\<not> startswith (strip ?raw) ''<<''" by code_simp
  have h5: "findall_tags (strip ?raw) = [''line:old'', ''mood''] @ (''line:'' @ ''abc123'') # [''late'']"
    by code_simp
  have h6: "\<forall>t\<in>set [''late'']. \<not> is_line_tag t" by code_simp
  have h7: "strip (sub_tags (strip ?raw)) \<noteq> []" by code_simp
  have h8: "\<forall>c\<in>set ''abc123''. \<not> isspace c" by code_simp
  note T = line_tag_round_trip [of ?st ?raw "[''line:old'', ''mood'']" "''abc123''" "[''late'']" "''Bob: Hi''"]
  from T h1 h2 h3 h4 h5 h6 h7
  have c1: "\<exists>r. snd (process_line ?st ?raw) = Some r \<and> line_id r = ''line:'' @ ''abc123''" by blast
  from T h8
  have c2: "\<exists>pre'. findall_tags (strip (''Bob: Hi'' @ '' #line:'' @ ''abc123'')) = pre' @ [''line:'' @ ''abc123'']"
    by blast
  from h1 h2 h3 h4 h5 h6 h7 h8 c1 c2 show ?thesis by (simp only: list_all_iff append.simps) blast
qed

subsection \<open>C8: an input file that cannot be read\<close>




subsection \<open>C9: generated and explicit identifiers\<close>

text \<open>
  Claim C9. Take two lines that are written as rows, in any states of the loop, the first
  with a tag starting with \<^verbatim>\<open>line:\<close> and the second without one. The identifier of
  the first row starts case-insensitively with \<^verbatim>\<open>line:\<close>; the identifier of the second
  is \<^verbatim>\<open>auto_id_\<close> followed by the decimal value the counter had when the line was read,
  and does not start with \<^verbatim>\<open>line:\<close>; so the two differ.
\<close>

theorem explicit_and_synthesized_ids_disjoint:
  assumes "process_line st1 raw1 = (st1', Some r1)"
    and "process_line st2 raw2 = (st2', Some r2)"
    and "\<exists>t\<in>set (findall_tags (strip raw1)). is_line_tag t"
    and "\<not> (\<exists>t\<in>set (findall_tags (strip raw2)). is_line_tag t)"
  shows "is_line_tag (line_id r1)
       \<and> line_id r2 = ''auto_id_'' @ str_nat (line_counter st2)
       \<and> \<not> is_line_tag (line_id r2)
       \<and> line_id r1 \<noteq> line_id r2"
proof -
  from process_line_Some(6) [OF assms(1)] have b1: "body_line st1 (strip raw1) = (st1', Some r1)" .
  from process_line_Some(6) [OF assms(2)] have b2: "body_line st2 (strip raw2) = (st2', Some r2)" .
  from assms(3) have ne: "filter is_line_tag (findall_tags (strip raw1)) \<noteq> []"
    by (simp add: filter_empty_conv)
  from assms(4) have e: "filter is_line_tag (findall_tags (strip raw2)) = []"
    by (simp add: filter_empty_conv)
  from body_line_ids(1) [OF b1] ne last_filter_line_tag [OF ne] have 1: "is_line_tag (line_id r1)"
    by simp
  from body_line_ids(1) [OF b2] e have 2: "line_id r2 = ''auto_id_'' @ str_nat (line_counter st2)"
    by simp
  from 2 not_line_tag_auto have 3: "\<not> is_line_tag (line_id r2)" by simp
  from 1 3 have "line_id r1 \<noteq> line_id r2" by auto
  with 1 2 3 show ?thesis by simp
qed

theorem explicit_and_synthesized_ids_disjoint_witness:
  "process_line \<lparr>current_node_title = ''Start'', in_body = True, line_counter = 12\<rparr> ''Hi #line:7'' =
     (\<lparr>current_node_title = ''Start'', in_body = True, line_counter = 12\<rparr>,
      Some \<lparr>line_id = ''line:7'', node_title = ''Start'', character_name = [],
            line_text = ''Hi'', other_tags = []\<rparr>)
   \<and> process_line \<lparr>current_node_title = ''Start'', in_body = True, line_counter = 12\<rparr> ''Hi'' =
     (\<lparr>current_node_title = ''Start'', in_body = True, line_counter = 13\<rparr>,
      Some \<lparr>line_id = ''auto_id_12'', node_title = ''Start'', character_name = [],
            line_text = ''Hi'', other_tags = []\<rparr>)
   \<and> (\<exists>t\<in>set (findall_tags (strip ''Hi #line:7'')). is_line_tag t)
   \<and> \<not> (\<exists>t\<in>set (findall_tags (strip ''Hi'')). is_line_tag t)
   \<and> is_line_tag ''line:7'' \<and> \<not> is_line_tag ''auto_id_12''"
proof -
  let ?st = "\<lparr>current_node_title = ''Start'', in_body = True, line_counter = 12\<rparr>"
  let ?st' = "\<lparr>current_node_title = ''Start'', in_body = True, line_counter = 13\<rparr>"
  let ?r1 = "\<lparr>line_id = ''line:7'', node_title = ''Start'', character_name = [],
            line_text = ''Hi'', other_tags = []\<rparr>"
  let ?r2 = "\<lparr>line_id = ''auto_id_12'', node_title = ''Start'', character_name = [],
            line_text = ''Hi'', other_tags = []\<rparr>"
  have h1: "process_line ?st ''Hi #line:7'' = (?st, Some ?r1)" by code_simp
  have h2: "process_line ?st ''Hi'' = (?st', Some ?r2)" by code_simp
  have h3: "\<exists>t\<in>set (findall_tags (strip ''Hi #line:7'')). is_line_tag t" by code_simp
  have h4: "\<not> (\<exists>t\<in>set (findall_tags (strip ''Hi'')). is_line_tag t)" by code_simp
  from explicit_and_synthesized_ids_disjoint [OF h1 h2 h3 h4]
  have "is_line_tag (line_id ?r1) \<and> \<not> is_line_tag (line_id ?r2)" by blast
  then have "is_line_tag ''line:7'' \<and> \<not> is_line_tag ''auto_id_12''" by simp
  with h1 h2 h3 h4 show ?thesis by blast
qed

subsection \<open>C10: conditionals on lines that are not choices\<close>

text \<open>
  Claim C10 says that on a line that is no choice every \<^verbatim>\<open><<\<close> ... \<^verbatim>\<open>>>\<close> sequence
  stays in the text of the row as it is. The speaker pattern splits the text at its first
  colon wherever that colon stands: below it stands inside the conditional, and the row has
  the speaker \<^verbatim>\<open>Bob <<if $a\<close> and the text \<^verbatim>\<open>b>> ok\<close>.
\<close>

theorem conditional_split_by_colon_counterexample:
  "strip (sub_tags (strip ''Bob <<if $a: b>> ok'')) = ''Bob <<if $a: b>> ok''
   \<and> \<not> startswith ''Bob <<if $a: b>> ok'' ''->''
   \<and> \<not> startswith ''Bob <<if $a: b>> ok'' ''<<''
   \<and> extract_rows [''---'', ''Bob <<if $a: b>> ok''] =
       [\<lparr>line_id = ''auto_id_0'', node_title = ''NO_TITLE'', character_name = ''Bob <<if $a'',
         line_text = ''b>> ok'', other_tags = []\<rparr>]"
  by code_simp

text \<open>
  Claim C10, amended. Conditionals are removed from choices only. For a line that is
  written as a row and whose text \<open>t\<close> (tags stripped) does not start with \<^verbatim>\<open>->\<close>: a
  \<^verbatim>\<open><<\<close> ... \<^verbatim>\<open>>>\<close> sequence of \<open>t\<close> stands unchanged in the text of the row
  whenever it lies behind the first colon of \<open>t\<close>, or \<open>t\<close> has no colon or starts with one
  (\<open>t\<close> being one line); and when \<open>t\<close> has no colon or starts with one, the text of the row
  is \<open>t\<close> and there is no speaker. A line read in body mode that starts with \<^verbatim>\<open><<\<close>
  is skipped as a command: no row, no change of state.
\<close>

theorem conditionals_kept_on_plain_lines:
  "(process_line st raw = (st', Some r) \<and>
    \<not> startswith (strip (sub_tags (strip raw))) ''->'' \<and>
    strip (sub_tags (strip raw)) = u @ ''<<'' @ b @ ''>>'' @ v \<and>
    CHR 0x0A \<notin> set (strip (sub_tags (strip raw))) \<and>
    (CHR '':'' \<in> set u \<or> CHR '':'' \<notin> set (strip (sub_tags (strip raw))) \<or>
     hd (strip (sub_tags (strip raw))) = CHR '':'')
    \<longrightarrow> (\<exists>u' v'. line_text r = u' @ ''<<'' @ b @ ''>>'' @ v'))
   \<and> (process_line st raw = (st', Some r) \<and>
       \<not> startswith (strip (sub_tags (strip raw))) ''->'' \<and>
       (CHR '':'' \<notin> set (strip (sub_tags (strip raw))) \<or>
        hd (strip (sub_tags (strip raw))) = CHR '':'')
       \<longrightarrow> line_text r = strip (sub_tags (strip raw)) \<and> character_name r = [])
   \<and> (in_body st \<and> startswith (strip raw) ''<<'' \<longrightarrow> process_line st raw = (st, None))"
proof -
  let ?t = "strip (sub_tags (strip raw))"
  have plain: "line_text r = ?t \<and> character_name r = []"
    if e: "process_line st raw = (st', Some r)" and nc: "\<not> startswith ?t ''->''"
      and m: "match_speaker ?t = None"
  proof -
    from process_line_Some(6) [OF e] have b: "body_line st (strip raw) = (st', Some r)" .
    from body_line_plain(1) [OF b nc m] show ?thesis by simp
  qed
  have B: "line_text r = ?t \<and> character_name r = []"
    if "process_line st raw = (st', Some r)" "\<not> startswith ?t ''->''"
      "CHR '':'' \<notin> set ?t \<or> hd ?t = CHR '':''"
    using that plain by (simp add: match_speaker_None_iff)
  have A: "\<exists>u' v'. line_text r = u' @ ''<<'' @ b @ ''>>'' @ v'"
    if e: "process_line st raw = (st', Some r)" and nc: "\<not> startswith ?t ''->''"
      and d: "?t = u @ ''<<'' @ b @ ''>>'' @ v" and nl: "CHR 0x0A \<notin> set ?t"
      and pos: "CHR '':'' \<in> set u \<or> CHR '':'' \<notin> set ?t \<or> hd ?t = CHR '':''"
  proof (cases "match_speaker ?t")
    case None
    from plain [OF e nc None] d have "line_text r = u @ ''<<'' @ b @ ''>>'' @ v" by simp
    then show ?thesis by blast
  next
    case (Some g)
    then have m: "match_speaker ?t = Some (fst g, snd g)" by simp
    have "\<not> (CHR '':'' \<notin> set ?t \<or> hd ?t = CHR '':'')"
    proof
      assume "CHR '':'' \<notin> set ?t \<or> hd ?t = CHR '':''"
      then have "match_speaker ?t = None" by (rule match_speaker_None_iff [THEN iffD2])
      with Some show False by simp
    qed
    with pos have cu: "CHR '':'' \<in> set u" by blast
    let ?c = "''<<'' @ b @ ''>>''"
    have "dropWhile (\<lambda>c. c \<noteq> CHR '':'') (u @ ?c @ v) = dropWhile (\<lambda>c. c \<noteq> CHR '':'') u @ ?c @ v"
      using cu by (intro dropWhile_append1 [of "CHR '':''"]) simp_all
    moreover from cu have "dropWhile (\<lambda>c. c \<noteq> CHR '':'') u \<noteq> []" by auto
    ultimately have "tl (dropWhile (\<lambda>c. c \<noteq> CHR '':'') (u @ ?c @ v)) =
        tl (dropWhile (\<lambda>c. c \<noteq> CHR '':'') u) @ ?c @ v"
      by simp
    with d have tl: "tl (dropWhile (\<lambda>c. c \<noteq> CHR '':'') ?t) =
        tl (dropWhile (\<lambda>c. c \<noteq> CHR '':'') u) @ ?c @ v" by simp
    have c1: "?c \<noteq> []" and c2: "\<not> isspace (hd ?c)" and c3: "\<not> isspace (last ?c)"
      by (simp_all add: isspace_def)
    from dropWhile_keeps_segment [of ?c isspace "tl (dropWhile (\<lambda>c. c \<noteq> CHR '':'') u)" v, OF c1 c2]
    obtain u1 where "dropWhile isspace (tl (dropWhile (\<lambda>c. c \<noteq> CHR '':'') u) @ ?c @ v) = u1 @ ?c @ v"
      by blast
    with match_speaker_one_line [OF m nl] tl have g2: "snd g = u1 @ ?c @ v" by simp
    from process_line_Some(6) [OF e] have bl: "body_line st (strip raw) = (st', Some r)" .
    from body_line_plain(2) [OF bl nc m] have "line_text r = strip (snd g)" by simp
    with g2 strip_keeps_segment [of ?c u1 v, OF c1 c2 c3] obtain u' v' where
      "line_text r = u' @ ?c @ v'" by auto
    then have "line_text r = u' @ ''<<'' @ b @ ''>>'' @ v'" by simp
    then show ?thesis by blast
  qed
  from A B command_line_skipped [of st raw] show ?thesis by blast
qed

theorem conditionals_kept_on_plain_lines_witness:
  "process_line \<lparr>current_node_title = ''Start'', in_body = True, line_counter = 0\<rparr>
       ''Guard: Halt <<wave $hand>> there. #line:g1'' =
     (\<lparr>current_node_title = ''Start'', in_body = True, line_counter = 0\<rparr>,
      Some \<lparr>line_id = ''line:g1'', node_title = ''Start'', character_name = ''Guard'',
            line_text = ''Halt <<wave $hand>> there.'', other_tags = []\<rparr>)
   \<and> \<not> startswith (strip (sub_tags (strip ''Guard: Halt <<wave $hand>> there. #line:g1''))) ''->''
   \<and> strip (sub_tags (strip ''Guard: Halt <<wave $hand>> there. #line:g1'')) =
       ''Guard: Halt '' @ ''<<'' @ ''wave $hand'' @ ''>>'' @ '' there.''
   \<and> CHR 0x0A \<notin> set (strip (sub_tags (strip ''Guard: Halt <<wave $hand>> there. #line:g1'')))
   \<and> CHR '':'' \<in> set ''Guard: Halt ''
   \<and> (\<exists>u' v'. ''Halt <<wave $hand>> there.'' = u' @ ''<<'' @ ''wave $hand'' @ ''>>'' @ v')
   \<and> process_line \<lparr>current_node_title = ''Start'', in_body = True, line_counter = 0\<rparr>
       ''Wait <<if $a>> here'' =
     (\<lparr>current_node_title = ''Start'', in_body = True, line_counter = 1\<rparr>,
      Some \<lparr>line_id = ''auto_id_0'', node_title = ''Start'', character_name = [],
            line_text = ''Wait <<if $a>> here'', other_tags = []\<rparr>)
   \<and> \<not> startswith (strip (sub_tags (strip ''Wait <<if $a>> here''))) ''->''
   \<and> CHR '':'' \<notin> set (strip (sub_tags (strip ''Wait <<if $a>> here'')))
   \<and> ''Wait <<if $a>> here'' = strip (sub_tags (strip ''Wait <<if $a>> here''))
   \<and> startswith (strip ''  <<jump Town>>'') ''<<''
   \<and> process_line \<lparr>current_node_title = ''Start'', in_body = True, line_counter = 0\<rparr>
       ''  <<jump Town>>'' =
     (\<lparr>current_node_title = ''Start'', in_body = True, line_counter = 0\<rparr>, None)"
proof -
  let ?st = "\<lparr>current_node_title = ''Start'', in_body = True, line_counter = 0\<rparr>"
  let ?st1 = "\<lparr>current_node_title = ''Start'', in_body = True, line_counter = 1\<rparr>"
  let ?raw = "''Guard: Halt <<wave $hand>> there. #line:g1''"
  let ?r = "\<lparr>line_id = ''line:g1'', node_title = ''Start'', character_name = ''Guard'',
            line_text = ''Halt <<wave $hand>> there.'', other_tags = []\<rparr>"
  let ?raw2 = "''Wait <<if $a>> here''"
  let ?r2 = "\<lparr>line_id = ''auto_id_0'', node_title = ''Start'', character_name = [],
            line_text = ''Wait <<if $a>> here'', other_tags = []\<rparr>"
  have h1: "process_line ?st ?raw = (?st, Some ?r)" by code_simp
  have h2: "\<not> startswith (strip (sub_tags (strip ?raw))) ''->''" by code_simp
  have h3: "strip (sub_tags (strip ?raw)) =
       ''Guard: Halt '' @ ''<<'' @ ''wave $hand'' @ ''>>'' @ '' there.''" by code_simp
  have h4: "CHR 0x0A \<notin> set (strip (sub_tags (strip ?raw)))" by code_simp
  have h5: "CHR '':'' \<in> set ''Guard: Halt ''" by simp
  have k1: "process_line ?st ?raw2 = (?st1, Some ?r2)" by code_simp
  have k2: "\<not> startswith (strip (sub_tags (strip ?raw2))) ''->''" by code_simp
  have k3: "CHR '':'' \<notin> set (strip (sub_tags (strip ?raw2)))" by code_simp
  have m1: "in_body ?st" by simp
  have m2: "startswith (strip ''  <<jump Town>>'') ''<<''" by code_simp
  from conditionals_kept_on_plain_lines [of ?st ?raw ?st ?r "''Guard: Halt ''" "''wave $hand''" "'' there.''"]
    h1 h2 h3 h4 h5
  have c1: "\<exists>u' v'. line_text ?r = u' @ ''<<'' @ ''wave $hand'' @ ''>>'' @ v'" by blast
  then have c1': "\<exists>u' v'. ''Halt <<wave $hand>> there.'' = u' @ ''<<'' @ ''wave $hand'' @ ''>>'' @ v'"
    by simp
  from conditionals_kept_on_plain_lines [of ?st "''  <<jump Town>>''" ?st ?r "[]" "[]" "[]"] m1 m2
  have c3: "process_line ?st ''  <<jump Town>>'' = (?st, None)" by blast
  from conditionals_kept_on_plain_lines [of ?st ?raw2 ?st1 ?r2 "[]" "[]" "[]"] k1 k2 k3
  have "line_text ?r2 = strip (sub_tags (strip ?raw2))" by blast
  then have c2: "''Wait <<if $a>> here'' = strip (sub_tags (strip ?raw2))" by simp
  from h1 h2 h3 h4 h5 c1' k1 k2 k3 c2 m2 c3 show ?thesis by blast
qed

end
